theory Spec2Isabelle
  imports Main
begin

section \<open>Cells, boards and the engine state\<close>

text \<open>
  \<^verbatim>\<open>CELL_TYPES = { INVALID: '-', EMPTY: 0, PEG: 1 }\<close>. A slot of a JavaScript array can
  also hold none of the three: reading past the end of a row gives \<^verbatim>\<open>undefined\<close>, and a
  write past the end grows the row and leaves holes. The program only ever compares a
  cell with \<^verbatim>\<open>===\<close> against the three cell types, so one further value,
  \<open>UNDEFINED\<close>, stands for every such slot.
\<close>

datatype cell = INVALID | EMPTY | PEG | UNDEFINED

type_synonym board = "cell list list"

text \<open>\<^verbatim>\<open>DIRECTIONS\<close>, as pairs \<open>(dx, dy)\<close>.\<close>

definition DIRECTIONS :: "(int \<times> int) list" where
  "DIRECTIONS = [(0, 2), (0, -2), (2, 0), (-2, 0)]"

text \<open>The only exception the engine can raise: indexing \<^verbatim>\<open>undefined\<close>.\<close>

datatype error = TypeError

text \<open>
  \<^verbatim>\<open>this.state = { board, selectedPeg }\<close>; the selection is \<^verbatim>\<open>null\<close> or an object
  \<^verbatim>\<open>{ r, c }\<close>. Coordinates are array indices, hence natural numbers.
\<close>

record engine_state =
  board :: board
  selectedPeg :: "(nat \<times> nat) option"

text \<open>
  \<^verbatim>\<open>board[r][c]\<close>: when \<open>r\<close> is not a row index, \<^verbatim>\<open>board[r]\<close> is \<^verbatim>\<open>undefined\<close> and
  indexing it throws; when only \<open>c\<close> is out of range the value is \<^verbatim>\<open>undefined\<close>.
\<close>

definition readCell :: "board \<Rightarrow> nat \<Rightarrow> nat \<Rightarrow> error + cell" where
  "readCell b r c =
     (if r < length b
      then Inr (if c < length (b ! r) then b ! r ! c else UNDEFINED)
      else Inl TypeError)"

text \<open>
  \<^verbatim>\<open>board[nr]?.[nc]\<close> on computed indices, which may be negative: \<^verbatim>\<open>undefined\<close>
  whenever either index is out of range, and never an exception.
\<close>

definition readCellOpt :: "board \<Rightarrow> int \<Rightarrow> int \<Rightarrow> cell" where
  "readCellOpt b i j =
     (if 0 \<le> i \<and> i < int (length b)
      then (if 0 \<le> j \<and> j < int (length (b ! nat i)) then b ! nat i ! nat j
            else UNDEFINED)
      else UNDEFINED)"

text \<open>\<^verbatim>\<open>row[c] = v\<close>: an index past the end grows the array, with holes in between.\<close>

definition setIndex :: "cell list \<Rightarrow> nat \<Rightarrow> cell \<Rightarrow> cell list" where
  "setIndex row c v =
     (if c < length row then row[c := v]
      else row @ replicate (c - length row) UNDEFINED @ [v])"

text \<open>\<^verbatim>\<open>board[r][c] = v\<close>: throws when \<^verbatim>\<open>board[r]\<close> is \<^verbatim>\<open>undefined\<close>.\<close>

definition writeCell :: "board \<Rightarrow> nat \<Rightarrow> nat \<Rightarrow> cell \<Rightarrow> error + board" where
  "writeCell b r c v =
     (if r < length b then Inr (b[r := setIndex (b ! r) c v]) else Inl TypeError)"

section \<open>The originator's operations\<close>

text \<open>
  \<^verbatim>\<open>tryMove(fr, fc, tr, tc)\<close>. The result pairs what the call returns (or the exception it
  throws) with the state it leaves behind; an exception raised by the third assignment
  leaves the first two in place. After the distance check \<open>dr\<close> and \<open>dc\<close> are
  \<open>-2\<close>, \<open>0\<close> or \<open>2\<close>, so the JavaScript quotients \<^verbatim>\<open>dr / 2\<close> and \<^verbatim>\<open>dc / 2\<close> are
  the integer quotients and the midpoint is not negative.
\<close>

definition tryMove ::
  "nat \<Rightarrow> nat \<Rightarrow> nat \<Rightarrow> nat \<Rightarrow> engine_state \<Rightarrow> (error + bool) \<times> engine_state" where
  "tryMove fr fc tr tc st =
     (let dr = int tr - int fr;
          dc = int tc - int fc;
          isValidDistance = ((\<bar>dr\<bar> = 2 \<and> dc = 0) \<or> (\<bar>dc\<bar> = 2 \<and> dr = 0))
      in if \<not> isValidDistance then (Inr False, st)
         else
           let mr = nat (int fr + dr div 2);
               mc = nat (int fc + dc div 2)
           in case readCell (board st) mr mc of
                Inl e \<Rightarrow> (Inl e, st)
              | Inr m \<Rightarrow>
                  if m \<noteq> PEG then (Inr False, st)
                  else
                    (case writeCell (board st) fr fc EMPTY of
                       Inl e \<Rightarrow> (Inl e, st)
                     | Inr b1 \<Rightarrow>
                         (case writeCell b1 mr mc EMPTY of
                            Inl e \<Rightarrow> (Inl e, st\<lparr>board := b1\<rparr>)
                          | Inr b2 \<Rightarrow>
                              (case writeCell b2 tr tc PEG of
                                 Inl e \<Rightarrow> (Inl e, st\<lparr>board := b2\<rparr>)
                               | Inr b3 \<Rightarrow> (Inr True, st\<lparr>board := b3\<rparr>)))))"

text \<open>The three results of \<^verbatim>\<open>selectCell\<close>.\<close>

datatype action = SELECT | MOVE_SUCCESS | NO_ACTION

definition selectCell ::
  "nat \<Rightarrow> nat \<Rightarrow> engine_state \<Rightarrow> (error + action) \<times> engine_state" where
  "selectCell r c st =
     (case readCell (board st) r c of
        Inl e \<Rightarrow> (Inl e, st)
      | Inr cell \<Rightarrow>
          if cell = PEG
          then (Inr SELECT,
                st\<lparr>selectedPeg := (if selectedPeg st = Some (r, c) then None else Some (r, c))\<rparr>)
          else
            (case (if cell = EMPTY then selectedPeg st else None) of
               Some (sr, sc) \<Rightarrow>
                 (case tryMove sr sc r c st of
                    (Inl e, st') \<Rightarrow> (Inl e, st')
                  | (Inr moveResult, st') \<Rightarrow>
                      if moveResult then (Inr MOVE_SUCCESS, st'\<lparr>selectedPeg := None\<rparr>)
                      else (Inr NO_ACTION, st'))
             | None \<Rightarrow> (Inr NO_ACTION, st)))"

section \<open>Board queries used by the specification\<close>

text \<open>A position is in bounds when it is a slot of the board's arrays.\<close>

definition inBounds :: "board \<Rightarrow> nat \<Rightarrow> nat \<Rightarrow> bool" where
  "inBounds b r c \<longleftrightarrow> r < length b \<and> c < length (b ! r)"

text \<open>\<open>countPegs\<close>, as the specification words it: the number of PEG cells.\<close>

definition countPegs :: "board \<Rightarrow> nat" where
  "countPegs b = length (filter (\<lambda>v. v = PEG) (concat b))"

text \<open>
  The legality of a jump in the specification's words: two cells along one axis and none
  along the other, and the midpoint, the average of the two positions, holds a PEG.
\<close>

definition legalJump :: "board \<Rightarrow> nat \<Rightarrow> nat \<Rightarrow> nat \<Rightarrow> nat \<Rightarrow> bool" where
  "legalJump b fr fc tr tc \<longleftrightarrow>
     ((\<bar>int tr - int fr\<bar> = 2 \<and> tc = fc) \<or> (\<bar>int tc - int fc\<bar> = 2 \<and> tr = fr)) \<and>
     readCell b ((fr + tr) div 2) ((fc + tc) div 2) = Inr PEG"

text \<open>\<^verbatim>\<open>initialBoardLayout\<close>\<close>

definition initialBoardLayout :: board where
  "initialBoardLayout =
     [[INVALID, INVALID, PEG, PEG, PEG, INVALID, INVALID],
      [INVALID, INVALID, PEG, PEG, PEG, INVALID, INVALID],
      [PEG, PEG, PEG, PEG, PEG, PEG, PEG],
      [PEG, PEG, PEG, EMPTY, PEG, PEG, PEG],
      [PEG, PEG, PEG, PEG, PEG, PEG, PEG],
      [INVALID, INVALID, PEG, PEG, PEG, INVALID, INVALID],
      [INVALID, INVALID, PEG, PEG, PEG, INVALID, INVALID]]"

section \<open>The terminal state, the memento and the interface\<close>

text \<open>
  \<^verbatim>\<open>checkGameState()\<close>. The body of the loop over \<^verbatim>\<open>DIRECTIONS\<close>: one direction
  \<open>(dx, dy)\<close> for the peg at \<open>(r, c)\<close>. \<open>dx\<close> and \<open>dy\<close> are \<open>0\<close>, \<open>2\<close> or
  \<open>-2\<close>, so \<^verbatim>\<open>dx / 2\<close> is the integer quotient.
\<close>

definition checkDirection :: "board \<Rightarrow> nat \<Rightarrow> nat \<Rightarrow> int \<times> int \<Rightarrow> nat \<Rightarrow> nat" where
  "checkDirection b r c d possibleMoves =
     (case d of (dx, dy) \<Rightarrow>
        let nr = int r + dx; nc = int c + dy;
            mr = int r + dx div 2; mc = int c + dy div 2
        in if readCellOpt b nr nc = EMPTY \<and> readCellOpt b mr mc = PEG
           then possibleMoves + 1 else possibleMoves)"

text \<open>The body of the loop over \<open>c\<close>, on the counters \<open>(pegs, possibleMoves)\<close>.\<close>

definition scanCell :: "board \<Rightarrow> nat \<Rightarrow> nat \<Rightarrow> nat \<times> nat \<Rightarrow> nat \<times> nat" where
  "scanCell b r c acc =
     (case acc of (pegs, possibleMoves) \<Rightarrow>
        if b ! r ! c = PEG
        then (pegs + 1, fold (checkDirection b r c) DIRECTIONS possibleMoves)
        else (pegs, possibleMoves))"

text \<open>The body of the loop over \<open>r\<close>: the loop over the columns of row \<open>r\<close>.\<close>

definition scanRow :: "board \<Rightarrow> nat \<Rightarrow> nat \<times> nat \<Rightarrow> nat \<times> nat" where
  "scanRow b r acc = fold (scanCell b r) [0..<length (b ! r)] acc"

record game_status =
  isGameOver :: bool
  isWin :: bool
  pegsRemaining :: nat

definition checkGameState :: "engine_state \<Rightarrow> game_status" where
  "checkGameState st =
     (case fold (scanRow (board st)) [0..<length (board st)] (0, 0) of
        (pegs, possibleMoves) \<Rightarrow>
          \<lparr>isGameOver = (pegs = 1 \<or> possibleMoves = 0),
           isWin = (pegs = 1),
           pegsRemaining = pegs\<rparr>)"

text \<open>
  The originator object: the layout it was built from and its state. At this level a
  value is its own copy, so \<^verbatim>\<open>layout.map(row => [...row])\<close> is the layout; which
  arrays are shared and which are fresh is the subject of the store model below.
\<close>

record Originator =
  initialLayout :: board
  state :: engine_state

definition newOriginator :: "board \<Rightarrow> Originator" where
  "newOriginator layout =
     \<lparr>initialLayout = layout, state = \<lparr>board = layout, selectedPeg = None\<rparr>\<rparr>"

definition restartGame :: "Originator \<Rightarrow> Originator" where
  "restartGame orig =
     orig\<lparr>state := (state orig)\<lparr>board := initialLayout orig, selectedPeg := None\<rparr>\<rparr>"

text \<open>
  \<^verbatim>\<open>ConcreteMemento\<close>: the captured state and the date string. The constructor reads the
  clock, which is a parameter \<open>now\<close> here.
\<close>

record ConcreteMemento =
  mementoState :: engine_state
  date :: string

definition save :: "string \<Rightarrow> Originator \<Rightarrow> ConcreteMemento" where
  "save now orig = \<lparr>mementoState = state orig, date = now\<rparr>"

definition getState :: "ConcreteMemento \<Rightarrow> engine_state" where
  "getState memento = mementoState memento"

definition restore :: "ConcreteMemento \<Rightarrow> Originator \<Rightarrow> Originator" where
  "restore memento orig =
     (let savedState = getState memento
      in orig\<lparr>state := (state orig)\<lparr>board := board savedState,
                                      selectedPeg := selectedPeg savedState\<rparr>\<rparr>)"

text \<open>
  \<^verbatim>\<open>Caretaker\<close>: the history, most recent last, and the originator it works on (the one
  object that the user interface refers to as well).
\<close>

record Caretaker =
  mementos :: "ConcreteMemento list"
  originator :: Originator

definition newCaretaker :: "Originator \<Rightarrow> Caretaker" where
  "newCaretaker orig = \<lparr>mementos = [], originator = orig\<rparr>"

definition backup :: "string \<Rightarrow> Caretaker \<Rightarrow> Caretaker" where
  "backup now ct = ct\<lparr>mementos := mementos ct @ [save now (originator ct)]\<rparr>"

definition undo :: "Caretaker \<Rightarrow> Caretaker" where
  "undo ct =
     (if mementos ct = [] then ct
      else ct\<lparr>mementos := butlast (mementos ct),
              originator := restore (last (mementos ct)) (originator ct)\<rparr>)"

text \<open>
  The user interface, without the document, the timer and the dialog: whether a game is
  running, and the caretaker with its originator.
\<close>

record UI =
  gameStarted :: bool
  caretaker :: Caretaker

definition newUI :: "Caretaker \<Rightarrow> UI" where
  "newUI ct = \<lparr>gameStarted = False, caretaker = ct\<rparr>"

definition startGame :: "UI \<Rightarrow> UI" where
  "startGame ui =
     ui\<lparr>gameStarted := True,
        caretaker := (caretaker ui)\<lparr>originator := restartGame (originator (caretaker ui)),
                                   mementos := []\<rparr>\<rparr>"

definition handleStartRestart :: "UI \<Rightarrow> UI" where
  "handleStartRestart ui = startGame ui"

definition handleUndo :: "UI \<Rightarrow> UI" where
  "handleUndo ui = ui\<lparr>caretaker := undo (caretaker ui)\<rparr>"

definition resetUI :: "UI \<Rightarrow> UI" where
  "resetUI ui =
     ui\<lparr>gameStarted := False,
        caretaker := (caretaker ui)\<lparr>originator := restartGame (originator (caretaker ui)),
                                   mementos := []\<rparr>\<rparr>"

definition handleStop :: "UI \<Rightarrow> UI" where
  "handleStop ui = resetUI ui"

definition checkGameStatus :: "UI \<Rightarrow> UI" where
  "checkGameStatus ui =
     (let status = checkGameState (state (originator (caretaker ui)))
      in if isGameOver status then ui\<lparr>gameStarted := False\<rparr> else ui)"

text \<open>Storing a new engine state in the originator that the interface refers to.\<close>

definition setEngineState :: "engine_state \<Rightarrow> UI \<Rightarrow> UI" where
  "setEngineState st ui =
     ui\<lparr>caretaker := (caretaker ui)\<lparr>originator := (originator (caretaker ui))\<lparr>state := st\<rparr>\<rparr>\<rparr>"

text \<open>
  \<^verbatim>\<open>handleCellClick(r, c)\<close>, with the clock reading \<open>now\<close> for the memento it may
  create. The result is the exception that ended the handler, if any, and the interface
  as the handler left it.
\<close>

definition handleCellClick :: "string \<Rightarrow> nat \<Rightarrow> nat \<Rightarrow> UI \<Rightarrow> error option \<times> UI" where
  "handleCellClick now r c ui =
     (if \<not> gameStarted ui then (None, ui)
      else
        (case readCell (board (state (originator (caretaker ui)))) r c of
           Inl e \<Rightarrow> (Some e, ui)
         | Inr cell \<Rightarrow>
             let ui1 =
               (if cell = EMPTY \<and> selectedPeg (state (originator (caretaker ui))) \<noteq> None
                then ui\<lparr>caretaker := backup now (caretaker ui)\<rparr> else ui)
             in (case selectCell r c (state (originator (caretaker ui1))) of
                   (Inl e, st') \<Rightarrow> (Some e, setEngineState st' ui1)
                 | (Inr result, st') \<Rightarrow>
                     if result \<noteq> NO_ACTION
                     then (if result = MOVE_SUCCESS
                           then (None, checkGameStatus (setEngineState st' ui1))
                           else (None, setEngineState st' ui1))
                     else (None, setEngineState st' ui1))))"

text \<open>
  The three objects the script builds at load time:
  \<^verbatim>\<open>new Originator(initialBoardLayout)\<close>, \<^verbatim>\<open>new Caretaker(originator)\<close> and
  \<^verbatim>\<open>new UI(originator, caretaker)\<close>.
\<close>

definition theOriginator :: Originator where
  "theOriginator = newOriginator initialBoardLayout"

definition theCaretaker :: Caretaker where
  "theCaretaker = newCaretaker theOriginator"

definition gameUI :: UI where
  "gameUI = newUI theCaretaker"

definition initialState :: engine_state where
  "initialState = state theOriginator"

section \<open>Notions used in the statements\<close>

text \<open>The value of a board after an in-range assignment \<^verbatim>\<open>board[r][c] = v\<close>.\<close>

definition putCell :: "board \<Rightarrow> nat \<Rightarrow> nat \<Rightarrow> cell \<Rightarrow> board" where
  "putCell b r c v = b[r := (b ! r)[c := v]]"

text \<open>The distance check of \<^verbatim>\<open>tryMove\<close>, on natural coordinates.\<close>

definition validDistance :: "nat \<Rightarrow> nat \<Rightarrow> nat \<Rightarrow> nat \<Rightarrow> bool" where
  "validDistance fr fc tr tc \<longleftrightarrow>
     (\<bar>int tr - int fr\<bar> = 2 \<and> tc = fc) \<or> (\<bar>int tc - int fc\<bar> = 2 \<and> tr = fr)"

text \<open>A rectangular grid: every row is as long as the first.\<close>

definition rectangular :: "board \<Rightarrow> bool" where
  "rectangular b \<longleftrightarrow> (\<forall>row \<in> set b. length row = length (hd b))"


text \<open>
  The terminal-state evaluation in the specification's words. \<open>holds b i j v\<close>: the
  position \<open>(i, j)\<close> is in bounds and its cell is \<open>v\<close>. The four jump directions are
  two rows up or down and two columns left or right. A jump is available for the peg at
  \<open>(r, c)\<close> in a direction when the adjacent midpoint holds a PEG and the landing cell
  two steps away is in bounds and EMPTY; \<open>availableMoves\<close> counts these over every PEG
  of the board.
\<close>

definition holds :: "board \<Rightarrow> int \<Rightarrow> int \<Rightarrow> cell \<Rightarrow> bool" where
  "holds b i j v \<longleftrightarrow>
     0 \<le> i \<and> i < int (length b) \<and> 0 \<le> j \<and> j < int (length (b ! nat i)) \<and>
     b ! nat i ! nat j = v"

definition jumpDirections :: "(int \<times> int) list" where
  "jumpDirections = [(2, 0), (-2, 0), (0, 2), (0, -2)]"

definition canJump :: "board \<Rightarrow> nat \<Rightarrow> nat \<Rightarrow> int \<times> int \<Rightarrow> bool" where
  "canJump b r c d \<longleftrightarrow>
     holds b (int r + fst d div 2) (int c + snd d div 2) PEG \<and>
     holds b (int r + fst d) (int c + snd d) EMPTY"

definition availableMoves :: "board \<Rightarrow> nat" where
  "availableMoves b =
     (\<Sum>r\<leftarrow>[0..<length b]. \<Sum>c\<leftarrow>[0..<length (b ! r)].
        if b ! r ! c = PEG then length (filter (canJump b r c) jumpDirections) else 0)"

text \<open>What one cell contributes to the two counters of \<open>checkGameState\<close>.\<close>

definition pegAt :: "board \<Rightarrow> nat \<Rightarrow> nat \<Rightarrow> nat" where
  "pegAt b r c = (if b ! r ! c = PEG then 1 else 0)"

definition movesAt :: "board \<Rightarrow> nat \<Rightarrow> nat \<Rightarrow> nat" where
  "movesAt b r c =
     (if b ! r ! c = PEG then length (filter (canJump b r c) jumpDirections) else 0)"

section \<open>Sequences of operations\<close>

text \<open>
  The operations that act on the engine and its history: the originator's
  \<^verbatim>\<open>selectCell\<close> and \<^verbatim>\<open>restartGame\<close>, the caretaker's \<^verbatim>\<open>backup\<close> and \<^verbatim>\<open>undo\<close>,
  the originator's \<^verbatim>\<open>restore\<close> with a memento of the history, and the assignment
  \<^verbatim>\<open>caretaker.mementos = []\<close>. A \<^verbatim>\<open>selectCell\<close> that throws ends
  the handler that called it; the engine keeps the state the call left.
\<close>

datatype operation =
    SelectCell nat nat
  | RestartGame
  | Backup string
  | Undo
  | RestoreMemento nat
  | ClearHistory

fun applyOperation :: "operation \<Rightarrow> Caretaker \<Rightarrow> Caretaker" where
  "applyOperation (SelectCell r c) ct =
     ct\<lparr>originator := (originator ct)\<lparr>state := snd (selectCell r c (state (originator ct)))\<rparr>\<rparr>"
| "applyOperation RestartGame ct = ct\<lparr>originator := restartGame (originator ct)\<rparr>"
| "applyOperation (Backup now) ct = backup now ct"
| "applyOperation Undo ct = undo ct"
| "applyOperation (RestoreMemento i) ct =
     (if i < length (mementos ct)
      then ct\<lparr>originator := restore (mementos ct ! i) (originator ct)\<rparr>
      else ct)"
| "applyOperation ClearHistory ct = ct\<lparr>mementos := []\<rparr>"

definition run :: "operation list \<Rightarrow> Caretaker \<Rightarrow> Caretaker" where
  "run ops ct = fold applyOperation ops ct"

text \<open>
  The invariant of the engine: the selection, if any, is on a PEG, and the INVALID cells
  are those of the layout. It holds of the live state and of every memento.
\<close>

definition selectionOnPeg :: "engine_state \<Rightarrow> bool" where
  "selectionOnPeg st \<longleftrightarrow>
     (\<forall>r c. selectedPeg st = Some (r, c) \<longrightarrow> readCell (board st) r c = Inr PEG)"

definition sameInvalid :: "board \<Rightarrow> board \<Rightarrow> bool" where
  "sameInvalid layout b \<longleftrightarrow>
     (\<forall>r c. readCell b r c = Inr INVALID \<longleftrightarrow> readCell layout r c = Inr INVALID)"

definition stateInv :: "board \<Rightarrow> engine_state \<Rightarrow> bool" where
  "stateInv layout st \<longleftrightarrow> selectionOnPeg st \<and> sameInvalid layout (board st)"

definition systemInv :: "board \<Rightarrow> Caretaker \<Rightarrow> bool" where
  "systemInv layout ct \<longleftrightarrow>
     initialLayout (originator ct) = layout \<and>
     stateInv layout (state (originator ct)) \<and>
     (\<forall>m \<in> set (mementos ct). stateInv layout (mementoState m))"

text \<open>
  A run of the interface: start a game, click the peg at \<open>(0, 2)\<close>, then click the
  empty centre \<open>(3, 3)\<close>, which the peg cannot reach.
\<close>

definition failedMoveClicks :: UI where
  "failedMoveClicks =
     snd (handleCellClick ''2026-01-01 10:00:05'' 3 3
       (snd (handleCellClick ''2026-01-01 10:00:03'' 0 2 (handleStartRestart gameUI))))"

section \<open>The store: which objects are shared\<close>

text \<open>
  The operations above pass values around, so a copy and its original cannot be told
  apart. For the memento that matters: whether a snapshot is a copy or a second
  reference to the live arrays decides whether undo works. This section therefore models
  the same code on a store of objects. A reference is an index into the store, a new
  object is appended, and an assignment to a property or an array slot replaces the
  object at its reference, which every holder of the reference then sees.

  The objects: a row (an array of cells), a board (an array of references to rows), a
  selection \<^verbatim>\<open>{ r, c }\<close>, a state \<^verbatim>\<open>{ board, selectedPeg }\<close> whose selection is
  \<^verbatim>\<open>null\<close> or a reference, and a memento \<^verbatim>\<open>{ state, date }\<close>.
\<close>

type_synonym ref = nat

datatype object =
    RowArray "cell list"
  | BoardArray "ref list"
  | PegObject nat nat
  | StateObject ref "ref option"
  | MementoObject ref string

type_synonym store = "object list"

text \<open>Allocation: the new object gets the next reference.\<close>

definition alloc :: "object \<Rightarrow> store \<Rightarrow> ref \<times> store" where
  "alloc obj s = (length s, s @ [obj])"

text \<open>
  Reading the value behind a reference: the cells of a row, the rows of a board, the
  selection, and the whole state as the value-level model has it. This is also what
  \<^verbatim>\<open>JSON.stringify\<close> writes down.
\<close>

definition rowValue :: "store \<Rightarrow> ref \<Rightarrow> cell list" where
  "rowValue s a = (case s ! a of RowArray cells \<Rightarrow> cells | _ \<Rightarrow> [])"

definition rowRefs :: "store \<Rightarrow> ref \<Rightarrow> ref list" where
  "rowRefs s b = (case s ! b of BoardArray rows \<Rightarrow> rows | _ \<Rightarrow> [])"

definition boardValue :: "store \<Rightarrow> ref \<Rightarrow> board" where
  "boardValue s b = map (rowValue s) (rowRefs s b)"

definition pegValue :: "store \<Rightarrow> ref option \<Rightarrow> (nat \<times> nat) option" where
  "pegValue s p =
     (case p of None \<Rightarrow> None
      | Some a \<Rightarrow> (case s ! a of PegObject r c \<Rightarrow> Some (r, c) | _ \<Rightarrow> None))"

definition boardRef :: "store \<Rightarrow> ref \<Rightarrow> ref" where
  "boardRef s st = (case s ! st of StateObject b p \<Rightarrow> b | _ \<Rightarrow> st)"

definition selectedPegRef :: "store \<Rightarrow> ref \<Rightarrow> ref option" where
  "selectedPegRef s st = (case s ! st of StateObject b p \<Rightarrow> p | _ \<Rightarrow> None)"

definition stateValue :: "store \<Rightarrow> ref \<Rightarrow> engine_state" where
  "stateValue s st =
     \<lparr>board = boardValue s (boardRef s st), selectedPeg = pegValue s (selectedPegRef s st)\<rparr>"

text \<open>\<^verbatim>\<open>this.state.board = ...\<close> and \<^verbatim>\<open>this.state.selectedPeg = ...\<close>.\<close>

definition assignBoard :: "ref \<Rightarrow> ref \<Rightarrow> store \<Rightarrow> store" where
  "assignBoard st b s = s[st := StateObject b (selectedPegRef s st)]"

definition assignSelectedPeg :: "ref \<Rightarrow> ref option \<Rightarrow> store \<Rightarrow> store" where
  "assignSelectedPeg st p s = s[st := StateObject (boardRef s st) p]"

text \<open>
  Building fresh objects from values: a board with a fresh array for each row, as
  \<^verbatim>\<open>rows.map(row => [...row])\<close> and \<^verbatim>\<open>JSON.parse\<close> do, a fresh selection object, as
  \<^verbatim>\<open>{ ...selectedPeg }\<close>, \<^verbatim>\<open>{ r, c }\<close> and \<^verbatim>\<open>JSON.parse\<close> do, and a whole state, as
  \<^verbatim>\<open>JSON.parse\<close> does.
\<close>

definition allocBoard :: "board \<Rightarrow> store \<Rightarrow> ref \<times> store" where
  "allocBoard b s =
     alloc (BoardArray [length s..<length s + length b]) (s @ map RowArray b)"

definition allocPeg :: "(nat \<times> nat) option \<Rightarrow> store \<Rightarrow> ref option \<times> store" where
  "allocPeg p s =
     (case p of None \<Rightarrow> (None, s)
      | Some (r, c) \<Rightarrow> (case alloc (PegObject r c) s of (a, s') \<Rightarrow> (Some a, s')))"

definition parseState :: "engine_state \<Rightarrow> store \<Rightarrow> ref \<times> store" where
  "parseState v s =
     (case allocBoard (board v) s of (b, s1) \<Rightarrow>
        (case allocPeg (selectedPeg v) s1 of (p, s2) \<Rightarrow>
           alloc (StateObject b p) s2))"

text \<open>
  The constructor of \<^verbatim>\<open>ConcreteMemento\<close>:
  \<^verbatim>\<open>this.state = JSON.parse(JSON.stringify(state))\<close>, and the date.
  \<^verbatim>\<open>getState() { return this.state; }\<close> returns the reference the memento holds.
\<close>

definition newConcreteMemento :: "string \<Rightarrow> ref \<Rightarrow> store \<Rightarrow> ref \<times> store" where
  "newConcreteMemento now st s =
     (case parseState (stateValue s st) s of (copy, s1) \<Rightarrow>
        alloc (MementoObject copy now) s1)"

definition getState_s :: "store \<Rightarrow> ref \<Rightarrow> ref" where
  "getState_s s m = (case s ! m of MementoObject st d \<Rightarrow> st | _ \<Rightarrow> m)"

text \<open>
  The originator object: its two properties are set by the constructor and never
  assigned again. \<^verbatim>\<open>save\<close> and \<^verbatim>\<open>restore\<close> on the store.
\<close>

record OriginatorRef =
  initialLayoutRef :: ref
  stateRef :: ref

definition save_s :: "string \<Rightarrow> OriginatorRef \<Rightarrow> store \<Rightarrow> ref \<times> store" where
  "save_s now orig s = newConcreteMemento now (stateRef orig) s"

definition restore_s :: "ref \<Rightarrow> OriginatorRef \<Rightarrow> store \<Rightarrow> store" where
  "restore_s m orig s =
     (let savedState = getState_s s m
      in case allocBoard (boardValue s (boardRef s savedState)) s of (b, s1) \<Rightarrow>
           let s2 = assignBoard (stateRef orig) b s1
           in case allocPeg (pegValue s2 (selectedPegRef s2 savedState)) s2 of (p, s3) \<Rightarrow>
                assignSelectedPeg (stateRef orig) p s3)"

text \<open>
  \<^verbatim>\<open>board[r][c]\<close>, \<^verbatim>\<open>board[r][c] = v\<close> and \<^verbatim>\<open>tryMove\<close> on the store. An assignment
  to a cell replaces the row object and nothing else. \<^verbatim>\<open>tryMove\<close> assigns to no property
  of the state, so \<^verbatim>\<open>this.state.board\<close> is the same reference at each of its
  statements and is read once here.
\<close>

definition readCell_s :: "store \<Rightarrow> ref \<Rightarrow> nat \<Rightarrow> nat \<Rightarrow> error + cell" where
  "readCell_s s b r c =
     (if r < length (rowRefs s b)
      then Inr (let cells = rowValue s (rowRefs s b ! r)
                in if c < length cells then cells ! c else UNDEFINED)
      else Inl TypeError)"

definition writeCell_s :: "store \<Rightarrow> ref \<Rightarrow> nat \<Rightarrow> nat \<Rightarrow> cell \<Rightarrow> error + store" where
  "writeCell_s s b r c v =
     (if r < length (rowRefs s b)
      then Inr (s[rowRefs s b ! r := RowArray (setIndex (rowValue s (rowRefs s b ! r)) c v)])
      else Inl TypeError)"

definition tryMove_s ::
  "nat \<Rightarrow> nat \<Rightarrow> nat \<Rightarrow> nat \<Rightarrow> OriginatorRef \<Rightarrow> store \<Rightarrow> (error + bool) \<times> store" where
  "tryMove_s fr fc tr tc orig s =
     (let dr = int tr - int fr;
          dc = int tc - int fc;
          isValidDistance = ((\<bar>dr\<bar> = 2 \<and> dc = 0) \<or> (\<bar>dc\<bar> = 2 \<and> dr = 0))
      in if \<not> isValidDistance then (Inr False, s)
         else
           let mr = nat (int fr + dr div 2);
               mc = nat (int fc + dc div 2);
               b = boardRef s (stateRef orig)
           in case readCell_s s b mr mc of
                Inl e \<Rightarrow> (Inl e, s)
              | Inr m \<Rightarrow>
                  if m \<noteq> PEG then (Inr False, s)
                  else
                    (case writeCell_s s b fr fc EMPTY of
                       Inl e \<Rightarrow> (Inl e, s)
                     | Inr s1 \<Rightarrow>
                         (case writeCell_s s1 b mr mc EMPTY of
                            Inl e \<Rightarrow> (Inl e, s1)
                          | Inr s2 \<Rightarrow>
                              (case writeCell_s s2 b tr tc PEG of
                                 Inl e \<Rightarrow> (Inl e, s2)
                               | Inr s3 \<Rightarrow> (Inr True, s3)))))"

text \<open>The caretaker: the references of its mementos, most recent last.\<close>

record CaretakerRef =
  mementoRefs :: "ref list"
  originatorRef :: OriginatorRef

definition backup_s :: "string \<Rightarrow> CaretakerRef \<Rightarrow> store \<Rightarrow> CaretakerRef \<times> store" where
  "backup_s now ct s =
     (case save_s now (originatorRef ct) s of (m, s') \<Rightarrow>
        (ct\<lparr>mementoRefs := mementoRefs ct @ [m]\<rparr>, s'))"

definition undo_s :: "CaretakerRef \<Rightarrow> store \<Rightarrow> CaretakerRef \<times> store" where
  "undo_s ct s =
     (if mementoRefs ct = [] then (ct, s)
      else (ct\<lparr>mementoRefs := butlast (mementoRefs ct)\<rparr>,
            restore_s (last (mementoRefs ct)) (originatorRef ct) s))"

text \<open>
  The constructor of \<^verbatim>\<open>Originator\<close>, which keeps the reference to the layout and copies
  its rows into a new state, and the store after the script has built the layout and
  the originator.
\<close>

definition newOriginator_s :: "ref \<Rightarrow> store \<Rightarrow> OriginatorRef \<times> store" where
  "newOriginator_s layout s =
     (case allocBoard (boardValue s layout) s of (b, s1) \<Rightarrow>
        (case alloc (StateObject b None) s1 of (st, s2) \<Rightarrow>
           (\<lparr>initialLayoutRef = layout, stateRef = st\<rparr>, s2)))"

definition scriptStore :: "OriginatorRef \<times> store" where
  "scriptStore =
     (case allocBoard initialBoardLayout [] of (layout, s) \<Rightarrow> newOriginator_s layout s)"

text \<open>\<^verbatim>\<open>selectCell\<close> and \<^verbatim>\<open>restartGame\<close> on the store.\<close>

definition selectCell_s ::
  "nat \<Rightarrow> nat \<Rightarrow> OriginatorRef \<Rightarrow> store \<Rightarrow> (error + action) \<times> store" where
  "selectCell_s r c orig s =
     (case readCell_s s (boardRef s (stateRef orig)) r c of
        Inl e \<Rightarrow> (Inl e, s)
      | Inr cell \<Rightarrow>
          if cell = PEG
          then (Inr SELECT,
                if pegValue s (selectedPegRef s (stateRef orig)) = Some (r, c)
                then assignSelectedPeg (stateRef orig) None s
                else (case alloc (PegObject r c) s of (a, s1) \<Rightarrow>
                        assignSelectedPeg (stateRef orig) (Some a) s1))
          else
            (case (if cell = EMPTY then pegValue s (selectedPegRef s (stateRef orig)) else None) of
               Some (sr, sc) \<Rightarrow>
                 (case tryMove_s sr sc r c orig s of
                    (Inl e, s') \<Rightarrow> (Inl e, s')
                  | (Inr moveResult, s') \<Rightarrow>
                      if moveResult
                      then (Inr MOVE_SUCCESS, assignSelectedPeg (stateRef orig) None s')
                      else (Inr NO_ACTION, s'))
             | None \<Rightarrow> (Inr NO_ACTION, s)))"

definition restartGame_s :: "OriginatorRef \<Rightarrow> store \<Rightarrow> store" where
  "restartGame_s orig s =
     (case allocBoard (boardValue s (initialLayoutRef orig)) s of (b, s1) \<Rightarrow>
        assignSelectedPeg (stateRef orig) None (assignBoard (stateRef orig) b s1))"

text \<open>Every call that changes the engine, and a sequence of them.\<close>

datatype engine_call =
    CallSelectCell nat nat
  | CallTryMove nat nat nat nat
  | CallRestartGame
  | CallRestore ref

fun applyCall :: "OriginatorRef \<Rightarrow> engine_call \<Rightarrow> store \<Rightarrow> store" where
  "applyCall orig (CallSelectCell r c) s = snd (selectCell_s r c orig s)"
| "applyCall orig (CallTryMove fr fc tr tc) s = snd (tryMove_s fr fc tr tc orig s)"
| "applyCall orig CallRestartGame s = restartGame_s orig s"
| "applyCall orig (CallRestore m) s = restore_s m orig s"

definition runCalls :: "OriginatorRef \<Rightarrow> engine_call list \<Rightarrow> store \<Rightarrow> store" where
  "runCalls orig calls s = fold (applyCall orig) calls s"

text \<open>
  The objects a state consists of, and what makes a state well formed: its references
  point to objects of the right kind and no row occurs twice in its board.
\<close>

definition stateRefs :: "store \<Rightarrow> ref \<Rightarrow> ref set" where
  "stateRefs s st =
     {st, boardRef s st} \<union> set (rowRefs s (boardRef s st)) \<union> set_option (selectedPegRef s st)"

definition wfState :: "store \<Rightarrow> ref \<Rightarrow> bool" where
  "wfState s st \<longleftrightarrow>
     st < length s \<and> (\<exists>b p. s ! st = StateObject b p) \<and>
     boardRef s st < length s \<and> (\<exists>rows. s ! boardRef s st = BoardArray rows) \<and>
     distinct (rowRefs s (boardRef s st)) \<and>
     (\<forall>a \<in> set (rowRefs s (boardRef s st)). a < length s \<and> (\<exists>cells. s ! a = RowArray cells)) \<and>
     (\<forall>a. selectedPegRef s st = Some a \<longrightarrow> a < length s \<and> (\<exists>r c. s ! a = PegObject r c))"

text \<open>
  What a call of the engine may do to the store: it grows, every object outside the
  engine's state is left as it was, the engine's state consists of objects it had or of
  new ones, and stays well formed.
\<close>

definition engineStep :: "ref \<Rightarrow> store \<Rightarrow> store \<Rightarrow> bool" where
  "engineStep e s s' \<longleftrightarrow>
     length s \<le> length s' \<and>
     (\<forall>a < length s. a \<notin> stateRefs s e \<longrightarrow> s' ! a = s ! a) \<and>
     stateRefs s' e \<subseteq> stateRefs s e \<union> {length s..<length s'} \<and>
     wfState s' e"

text \<open>
  The sequences that the round-trip property is about: capture and restore at once, and
  backup, move, undo.
\<close>

definition captureThenRestore :: "string \<Rightarrow> OriginatorRef \<Rightarrow> store \<Rightarrow> store" where
  "captureThenRestore now orig s =
     (case save_s now orig s of (m, s1) \<Rightarrow> restore_s m orig s1)"

definition backupThenMove ::
  "string \<Rightarrow> nat \<Rightarrow> nat \<Rightarrow> nat \<Rightarrow> nat \<Rightarrow> CaretakerRef \<Rightarrow> store
     \<Rightarrow> CaretakerRef \<times> (error + bool) \<times> store" where
  "backupThenMove now fr fc tr tc ct s =
     (case backup_s now ct s of (ct1, s1) \<Rightarrow>
        (ct1, tryMove_s fr fc tr tc (originatorRef ct1) s1))"

definition backupMoveUndo ::
  "string \<Rightarrow> nat \<Rightarrow> nat \<Rightarrow> nat \<Rightarrow> nat \<Rightarrow> CaretakerRef \<Rightarrow> store \<Rightarrow> CaretakerRef \<times> store" where
  "backupMoveUndo now fr fc tr tc ct s =
     (case backupThenMove now fr fc tr tc ct s of (ct1, res, s2) \<Rightarrow> undo_s ct1 s2)"

text \<open>
  The script's originator and store, a snapshot of them, and the store after a caller has
  written through the reference that \<^verbatim>\<open>getState\<close> returned:
  \<^verbatim>\<open>memento.getState().board[3][3] = 1\<close>.
\<close>

definition theOriginatorRef :: OriginatorRef where
  "theOriginatorRef = fst scriptStore"

definition theCaretakerRef :: CaretakerRef where
  "theCaretakerRef = \<lparr>mementoRefs = [], originatorRef = theOriginatorRef\<rparr>"

definition initialStore :: store where
  "initialStore = snd scriptStore"

definition snapshotExample :: "ref \<times> store" where
  "snapshotExample = save_s ''2026-01-01 10:00:00'' theOriginatorRef initialStore"

definition mutatedThroughGetState :: store where
  "mutatedThroughGetState =
     (case snapshotExample of (m, s1) \<Rightarrow>
        (case writeCell_s s1 (boardRef s1 (getState_s s1 m)) 3 3 PEG of
           Inr s2 \<Rightarrow> s2 | Inl e \<Rightarrow> s1))"

section \<open>Reading and writing cells\<close>

lemma writeCell_inBounds:
  "inBounds b r c \<Longrightarrow> writeCell b r c v = Inr (putCell b r c v)"
  by (simp add: writeCell_def setIndex_def inBounds_def putCell_def)

lemma inBounds_putCell [simp]:
  "inBounds (putCell b r c v) r' c' = inBounds b r' c'"
  by (cases "r' = r") (auto simp: inBounds_def putCell_def)

lemma readCell_putCell:
  "readCell (putCell b r c v) r' c' =
     (if r' = r \<and> c' = c \<and> inBounds b r c then Inr v else readCell b r' c')"
  by (cases "r' = r"; cases "c' = c") (auto simp: readCell_def inBounds_def putCell_def)

lemma readCell_PEG_inBounds: "readCell b r c = Inr PEG \<Longrightarrow> inBounds b r c"
  by (auto simp: readCell_def inBounds_def split: if_splits)

lemma readCell_EMPTY_inBounds: "readCell b r c = Inr EMPTY \<Longrightarrow> inBounds b r c"
  by (auto simp: readCell_def inBounds_def split: if_splits)

lemma initialState_simps [simp]:
  "board initialState = initialBoardLayout" "selectedPeg initialState = None"
  by (simp_all add: initialState_def theOriginator_def newOriginator_def)

section \<open>The move\<close>

lemma midpoint_nat:
  "\<bar>int t - int f\<bar> = 2 \<Longrightarrow> nat (int f + (int t - int f) div 2) = (f + t) div 2"
  by (cases "f \<le> t") (auto simp: abs_if split: if_splits)

lemma tryMove_invalid:
  "\<not> validDistance fr fc tr tc \<Longrightarrow> tryMove fr fc tr tc st = (Inr False, st)"
  by (auto simp: tryMove_def validDistance_def Let_def)

lemma tryMove_valid:
  assumes "validDistance fr fc tr tc"
  shows "tryMove fr fc tr tc st =
    (case readCell (board st) ((fr + tr) div 2) ((fc + tc) div 2) of
       Inl e \<Rightarrow> (Inl e, st)
     | Inr m \<Rightarrow>
         if m \<noteq> PEG then (Inr False, st)
         else
           (case writeCell (board st) fr fc EMPTY of
              Inl e \<Rightarrow> (Inl e, st)
            | Inr b1 \<Rightarrow>
                (case writeCell b1 ((fr + tr) div 2) ((fc + tc) div 2) EMPTY of
                   Inl e \<Rightarrow> (Inl e, st\<lparr>board := b1\<rparr>)
                 | Inr b2 \<Rightarrow>
                     (case writeCell b2 tr tc PEG of
                        Inl e \<Rightarrow> (Inl e, st\<lparr>board := b2\<rparr>)
                      | Inr b3 \<Rightarrow> (Inr True, st\<lparr>board := b3\<rparr>)))))"
proof -
  have mr: "nat (int fr + (int tr - int fr) div 2) = (fr + tr) div 2"
    using assms by (auto simp: validDistance_def midpoint_nat)
  have mc: "nat (int fc + (int tc - int fc) div 2) = (fc + tc) div 2"
    using assms by (auto simp: validDistance_def midpoint_nat)
  have v: "(\<bar>int tr - int fr\<bar> = 2 \<and> int tc - int fc = 0) \<or>
           (\<bar>int tc - int fc\<bar> = 2 \<and> int tr - int fr = 0)"
    using assms by (auto simp: validDistance_def)
  show ?thesis
    unfolding tryMove_def Let_def mr mc using v by simp
qed

lemma legalJump_validDistance: "legalJump b fr fc tr tc \<Longrightarrow> validDistance fr fc tr tc"
  by (auto simp: legalJump_def validDistance_def)

lemma legalJump_midpoint:
  "legalJump b fr fc tr tc \<Longrightarrow> readCell b ((fr + tr) div 2) ((fc + tc) div 2) = Inr PEG"
  by (simp add: legalJump_def)

lemma tryMove_legal:
  assumes "inBounds (board st) fr fc" "inBounds (board st) tr tc"
    and "legalJump (board st) fr fc tr tc"
  shows "tryMove fr fc tr tc st =
    (Inr True, st\<lparr>board :=
       putCell (putCell (putCell (board st) fr fc EMPTY)
                  ((fr + tr) div 2) ((fc + tc) div 2) EMPTY) tr tc PEG\<rparr>)"
proof -
  note v = legalJump_validDistance [OF assms(3)] and m = legalJump_midpoint [OF assms(3)]
  from m have mb: "inBounds (board st) ((fr + tr) div 2) ((fc + tc) div 2)"
    by (rule readCell_PEG_inBounds)
  show ?thesis
    by (simp add: tryMove_valid [OF v] m writeCell_inBounds assms(1,2) mb)
qed

lemma tryMove_illegal:
  assumes "\<not> legalJump (board st) fr fc tr tc"
  shows "fst (tryMove fr fc tr tc st) \<noteq> Inr True \<and> snd (tryMove fr fc tr tc st) = st"
proof (cases "validDistance fr fc tr tc")
  case False
  then show ?thesis by (simp add: tryMove_invalid)
next
  case True
  with assms have "readCell (board st) ((fr + tr) div 2) ((fc + tc) div 2) \<noteq> Inr PEG"
    by (auto simp: legalJump_def validDistance_def)
  then show ?thesis
    by (auto simp: tryMove_valid [OF True] split: sum.splits)
qed

lemma tryMove_fst:
  assumes "inBounds (board st) fr fc" and "inBounds (board st) tr tc"
  shows "fst (tryMove fr fc tr tc st) = Inr (legalJump (board st) fr fc tr tc)"
proof (cases "legalJump (board st) fr fc tr tc")
  case True
  then show ?thesis by (simp add: tryMove_legal [OF assms])
next
  case False
  have "fst (tryMove fr fc tr tc st) = Inr False"
  proof (cases "validDistance fr fc tr tc")
    case v: False
    then show ?thesis by (simp add: tryMove_invalid)
  next
    case v: True
    with False have n: "readCell (board st) ((fr + tr) div 2) ((fc + tc) div 2) \<noteq> Inr PEG"
      by (auto simp: legalJump_def validDistance_def)
    have "(fr + tr) div 2 < length (board st)"
      using assms v by (auto simp: inBounds_def validDistance_def)
    then obtain m where "readCell (board st) ((fr + tr) div 2) ((fc + tc) div 2) = Inr m"
      by (simp add: readCell_def)
    with n show ?thesis
      by (simp add: tryMove_valid [OF v])
  qed
  with False show ?thesis by simp
qed

lemma validDistance_distinct:
  assumes "validDistance fr fc tr tc"
  shows "((fr + tr) div 2, (fc + tc) div 2) \<noteq> (fr, fc)"
    and "((fr + tr) div 2, (fc + tc) div 2) \<noteq> (tr, tc)"
    and "(fr, fc) \<noteq> (tr, tc)"
  using assms by (auto simp: validDistance_def abs_if split: if_splits)

text \<open>
  C1. For in-bounds positions, \<open>tryMove\<close> returns \<open>true\<close> exactly when the jump is legal
  in the specification's sense (two cells along one axis, none along the other, and a PEG
  on the midpoint). On success the origin and the midpoint read EMPTY and the destination
  reads PEG afterwards, every other cell and the selection are as before; on failure it
  returns \<open>false\<close> and the state is the one it was given.
\<close>

theorem tryMove_accepts_iff_legal:
  assumes "inBounds (board st) fr fc" and "inBounds (board st) tr tc"
  shows "fst (tryMove fr fc tr tc st) = Inr (legalJump (board st) fr fc tr tc) \<and>
    (legalJump (board st) fr fc tr tc \<longrightarrow>
       readCell (board (snd (tryMove fr fc tr tc st))) fr fc = Inr EMPTY \<and>
       readCell (board (snd (tryMove fr fc tr tc st))) ((fr + tr) div 2) ((fc + tc) div 2)
         = Inr EMPTY \<and>
       readCell (board (snd (tryMove fr fc tr tc st))) tr tc = Inr PEG \<and>
       (\<forall>r c. (r, c) \<noteq> (fr, fc) \<and> (r, c) \<noteq> ((fr + tr) div 2, (fc + tc) div 2) \<and>
              (r, c) \<noteq> (tr, tc) \<longrightarrow>
          readCell (board (snd (tryMove fr fc tr tc st))) r c = readCell (board st) r c) \<and>
       selectedPeg (snd (tryMove fr fc tr tc st)) = selectedPeg st) \<and>
    (\<not> legalJump (board st) fr fc tr tc \<longrightarrow> snd (tryMove fr fc tr tc st) = st)"
proof (cases "legalJump (board st) fr fc tr tc")
  case True
  note v = legalJump_validDistance [OF True] and m = legalJump_midpoint [OF True]
  from m have mb: "inBounds (board st) ((fr + tr) div 2) ((fc + tc) div 2)"
    by (rule readCell_PEG_inBounds)
  note d = validDistance_distinct [OF v]
  show ?thesis
    using True d assms mb
    by (simp add: tryMove_legal [OF assms True] readCell_putCell)
next
  case False
  with tryMove_fst [OF assms] tryMove_illegal [OF False] show ?thesis by simp
qed

theorem tryMove_accepts_iff_legal_witness:
  "inBounds (board initialState) 3 1 \<and> inBounds (board initialState) 3 3 \<and>
   inBounds (board initialState) 2 2 \<and>
   legalJump (board initialState) 3 1 3 3 \<and>
   fst (tryMove 3 1 3 3 initialState) = Inr True \<and>
   readCell (board (snd (tryMove 3 1 3 3 initialState))) 3 1 = Inr EMPTY \<and>
   readCell (board (snd (tryMove 3 1 3 3 initialState))) 3 2 = Inr EMPTY \<and>
   readCell (board (snd (tryMove 3 1 3 3 initialState))) 3 3 = Inr PEG \<and>
   readCell (board (snd (tryMove 3 1 3 3 initialState))) 3 4 = Inr PEG \<and>
   \<not> legalJump (board initialState) 3 1 2 2 \<and>
   fst (tryMove 3 1 2 2 initialState) = Inr False \<and>
   snd (tryMove 3 1 2 2 initialState) = initialState"
proof -
  have a: "inBounds (board initialState) 3 1" and b: "inBounds (board initialState) 3 3"
    and c: "inBounds (board initialState) 2 2"
    by (simp_all add: inBounds_def initialBoardLayout_def)
  have l: "legalJump (board initialState) 3 1 3 3"
    and n: "\<not> legalJump (board initialState) 3 1 2 2"
    by (simp_all add: legalJump_def readCell_def initialBoardLayout_def)
  have r: "readCell (board initialState) 3 4 = Inr PEG"
    by (simp add: readCell_def initialBoardLayout_def)
  from tryMove_accepts_iff_legal [OF a b] l r
  have "fst (tryMove 3 1 3 3 initialState) = Inr True \<and>
   readCell (board (snd (tryMove 3 1 3 3 initialState))) 3 1 = Inr EMPTY \<and>
   readCell (board (snd (tryMove 3 1 3 3 initialState))) 3 2 = Inr EMPTY \<and>
   readCell (board (snd (tryMove 3 1 3 3 initialState))) 3 3 = Inr PEG \<and>
   readCell (board (snd (tryMove 3 1 3 3 initialState))) 3 4 = Inr PEG"
    by simp
  moreover from tryMove_accepts_iff_legal [OF a c] n
  have "fst (tryMove 3 1 2 2 initialState) = Inr False \<and>
        snd (tryMove 3 1 2 2 initialState) = initialState"
    by simp
  ultimately show ?thesis using a b c l n by simp
qed

section \<open>Counting pegs\<close>

lemma countPegs_sum: "countPegs b = sum_list (map (\<lambda>row. length (filter (\<lambda>v. v = PEG) row)) b)"
  by (simp add: countPegs_def filter_concat length_concat comp_def)

lemma count_row_update:
  "c < length row \<Longrightarrow>
   length (filter P (row[c := v])) + (if P (row ! c) then 1 else 0) =
   length (filter P row) + (if P v then 1 else 0)"
proof (induction row arbitrary: c)
  case Nil
  then show ?case by simp
next
  case (Cons x xs)
  then show ?case by (cases c) auto
qed

lemma sum_list_map_update:
  "r < length b \<Longrightarrow>
   sum_list (map f (b[r := x])) + f (b ! r) = sum_list (map f b) + (f x :: nat)"
proof (induction b arbitrary: r)
  case Nil
  then show ?case by simp
next
  case (Cons y ys)
  then show ?case by (cases r) auto
qed

lemma countPegs_putCell:
  assumes "inBounds b r c"
  shows "countPegs (putCell b r c v) + (if b ! r ! c = PEG then 1 else 0) =
         countPegs b + (if v = PEG then 1 else 0)"
proof -
  let ?f = "\<lambda>row. length (filter (\<lambda>v. v = PEG) row)"
  from assms have r: "r < length b" and c: "c < length (b ! r)"
    by (simp_all add: inBounds_def)
  have "sum_list (map ?f (b[r := (b ! r)[c := v]])) + ?f (b ! r) =
        sum_list (map ?f b) + ?f ((b ! r)[c := v])"
    using r by (rule sum_list_map_update)
  moreover have "?f ((b ! r)[c := v]) + (if b ! r ! c = PEG then 1 else 0) =
        ?f (b ! r) + (if v = PEG then 1 else 0)"
    using c by (rule count_row_update)
  ultimately show ?thesis
    by (simp add: countPegs_sum putCell_def)
qed

lemma readCell_inBounds: "inBounds b r c \<Longrightarrow> readCell b r c = Inr (b ! r ! c)"
  by (simp add: readCell_def inBounds_def)

text \<open>
  C4, as stated, fails: \<open>tryMove\<close> checks the distance and the midpoint only, so on the
  initial layout the jump from \<open>(3, 0)\<close> over \<open>(3, 1)\<close> onto the peg at \<open>(3, 2)\<close>
  succeeds and leaves 30 of the 32 pegs.
\<close>

theorem tryMove_countPegs_counterexample:
  "fst (tryMove 3 0 3 2 initialState) = Inr True \<and>
   countPegs (board initialState) = 32 \<and>
   countPegs (board (snd (tryMove 3 0 3 2 initialState))) = 30"
  by (simp add: tryMove_def readCell_def writeCell_def setIndex_def countPegs_def
      initialBoardLayout_def)

text \<open>
  C4, amended. When the origin holds a PEG and the destination is an in-bounds cell that
  holds no PEG (as \<open>selectCell\<close> guarantees for a selection that holds a PEG), a
  successful \<open>tryMove\<close> leaves exactly one PEG fewer on the board.
\<close>

theorem tryMove_countPegs:
  assumes "readCell (board st) fr fc = Inr PEG"
    and "inBounds (board st) tr tc"
    and "readCell (board st) tr tc \<noteq> Inr PEG"
    and "fst (tryMove fr fc tr tc st) = Inr True"
  shows "countPegs (board (snd (tryMove fr fc tr tc st))) + 1 = countPegs (board st)"
proof -
  let ?mr = "(fr + tr) div 2" and ?mc = "(fc + tc) div 2"
  let ?b = "board st"
  let ?b1 = "putCell ?b fr fc EMPTY"
  let ?b2 = "putCell ?b1 ?mr ?mc EMPTY"
  from assms(1) have f: "inBounds ?b fr fc" by (rule readCell_PEG_inBounds)
  note t = assms(2)
  from assms(4) have l: "legalJump ?b fr fc tr tc"
    using tryMove_illegal [of st fr fc tr tc] by auto
  note v = legalJump_validDistance [OF l] and m = legalJump_midpoint [OF l]
  from m have mb: "inBounds ?b ?mr ?mc" by (rule readCell_PEG_inBounds)
  note d = validDistance_distinct [OF v]
  have c1: "countPegs ?b1 + 1 = countPegs ?b"
    using countPegs_putCell [OF f, of EMPTY] assms(1) f by (simp add: readCell_inBounds)
  have "readCell ?b1 ?mr ?mc = Inr PEG"
    using m d by (auto simp: readCell_putCell)
  then have c2: "countPegs ?b2 + 1 = countPegs ?b1"
    using countPegs_putCell [of ?b1 ?mr ?mc EMPTY] mb by (simp add: readCell_inBounds)
  have "readCell ?b2 tr tc \<noteq> Inr PEG"
    using assms(3) d by (auto simp: readCell_putCell)
  then have c3: "countPegs (putCell ?b2 tr tc PEG) = countPegs ?b2 + 1"
    using countPegs_putCell [of ?b2 tr tc PEG] t by (simp add: readCell_inBounds)
  show ?thesis
    using c1 c2 c3 by (simp add: tryMove_legal [OF f t l])
qed

theorem tryMove_countPegs_witness:
  "readCell (board initialState) 3 1 = Inr PEG \<and>
   inBounds (board initialState) 3 3 \<and>
   readCell (board initialState) 3 3 \<noteq> Inr PEG \<and>
   fst (tryMove 3 1 3 3 initialState) = Inr True \<and>
   countPegs (board initialState) = 32 \<and>
   countPegs (board (snd (tryMove 3 1 3 3 initialState))) = 31"
proof -
  have a: "readCell (board initialState) 3 1 = Inr PEG"
    and b: "inBounds (board initialState) 3 3"
    and b': "readCell (board initialState) 3 3 \<noteq> Inr PEG"
    by (simp_all add: readCell_def inBounds_def initialBoardLayout_def)
  have c: "fst (tryMove 3 1 3 3 initialState) = Inr True"
    by (simp add: tryMove_def readCell_def writeCell_def setIndex_def initialBoardLayout_def)
  have n: "countPegs (board initialState) = 32"
    by (simp add: countPegs_def initialBoardLayout_def)
  from tryMove_countPegs [OF a b b' c] n
  have "countPegs (board (snd (tryMove 3 1 3 3 initialState))) = 31" by simp
  with a b b' c n show ?thesis by simp
qed

section \<open>The midpoint of a move\<close>

lemma rectangular_length:
  "rectangular b \<Longrightarrow> r < length b \<Longrightarrow> r' < length b \<Longrightarrow> length (b ! r) = length (b ! r')"
  by (simp add: rectangular_def)

lemma map_length_putCell [simp]: "map length (putCell b r c v) = map length b"
  by (cases "r < length b") (simp_all add: putCell_def map_update list_update_same_conv list_update_beyond)

lemma abs_two_cases: "\<bar>x\<bar> = 2 \<longleftrightarrow> x = 2 \<or> x = - 2" for x :: int
  by auto

text \<open>
  C10. For in-bounds origin and destination: when the distance check passes, \<open>dr\<close> and
  \<open>dc\<close> are even with halves in \<open>{-1, 0, 1}\<close>, the midpoint is the exact middle of
  origin and destination, differs from both, has a valid row index and, on a rectangular
  board, is in bounds; \<open>tryMove\<close> raises no exception and, writing only existing slots,
  leaves the shape of the board as it was.
\<close>

theorem tryMove_midpoint_safe:
  assumes "inBounds (board st) fr fc" and "inBounds (board st) tr tc"
  shows
    "((\<bar>int tr - int fr\<bar> = 2 \<and> int tc - int fc = 0) \<or>
      (\<bar>int tc - int fc\<bar> = 2 \<and> int tr - int fr = 0) \<longrightarrow>
       2 dvd (int tr - int fr) \<and> (int tr - int fr) div 2 \<in> {-1, 0, 1} \<and>
       2 dvd (int tc - int fc) \<and> (int tc - int fc) div 2 \<in> {-1, 0, 1} \<and>
       0 \<le> int fr + (int tr - int fr) div 2 \<and>
       int fr + (int tr - int fr) div 2 < int (length (board st)) \<and>
       0 \<le> int fc + (int tc - int fc) div 2 \<and>
       2 * (int fr + (int tr - int fr) div 2) = int fr + int tr \<and>
       2 * (int fc + (int tc - int fc) div 2) = int fc + int tc \<and>
       (int fr + (int tr - int fr) div 2, int fc + (int tc - int fc) div 2)
          \<noteq> (int fr, int fc) \<and>
       (int fr + (int tr - int fr) div 2, int fc + (int tc - int fc) div 2)
          \<noteq> (int tr, int tc) \<and>
       (rectangular (board st) \<longrightarrow>
          inBounds (board st) (nat (int fr + (int tr - int fr) div 2))
                              (nat (int fc + (int tc - int fc) div 2)))) \<and>
     (\<exists>res. fst (tryMove fr fc tr tc st) = Inr res) \<and>
     map length (board (snd (tryMove fr fc tr tc st))) = map length (board st)"
proof (intro conjI impI)
  assume v0: "(\<bar>int tr - int fr\<bar> = 2 \<and> int tc - int fc = 0) \<or>
      (\<bar>int tc - int fc\<bar> = 2 \<and> int tr - int fr = 0)"
  then have v: "((int tr - int fr = 2 \<or> int tr - int fr = -2) \<and> int tc - int fc = 0) \<or>
      ((int tc - int fc = 2 \<or> int tc - int fc = -2) \<and> int tr - int fr = 0)"
    by (simp add: abs_two_cases)
  show "2 dvd (int tr - int fr)" "2 dvd (int tc - int fc)"
    using v by presburger+
  show "(int tr - int fr) div 2 \<in> {-1, 0, 1}" "(int tc - int fc) div 2 \<in> {-1, 0, 1}"
    using v by auto
  show "0 \<le> int fr + (int tr - int fr) div 2" "0 \<le> int fc + (int tc - int fc) div 2"
    using v by auto
  show "int fr + (int tr - int fr) div 2 < int (length (board st))"
    using v assms by (auto simp: inBounds_def)
  show "2 * (int fr + (int tr - int fr) div 2) = int fr + int tr"
    "2 * (int fc + (int tc - int fc) div 2) = int fc + int tc"
    using v by auto
  show "(int fr + (int tr - int fr) div 2, int fc + (int tc - int fc) div 2)
          \<noteq> (int fr, int fc)"
    "(int fr + (int tr - int fr) div 2, int fc + (int tc - int fc) div 2)
          \<noteq> (int tr, int tc)"
    using v by auto
  assume rect: "rectangular (board st)"
  from v0 have vd: "validDistance fr fc tr tc"
    by (auto simp: validDistance_def)
  have mr: "nat (int fr + (int tr - int fr) div 2) = (fr + tr) div 2"
    and mc: "nat (int fc + (int tc - int fc) div 2) = (fc + tc) div 2"
    using vd by (auto simp: validDistance_def midpoint_nat)
  have r: "(fr + tr) div 2 < length (board st)"
    using vd assms by (auto simp: inBounds_def validDistance_def)
  have "(fc + tc) div 2 < length (board st ! fr)"
    using vd assms by (auto simp: inBounds_def validDistance_def)
  also have "length (board st ! fr) = length (board st ! ((fr + tr) div 2))"
    using rect assms r by (intro rectangular_length) (simp_all add: inBounds_def)
  finally show "inBounds (board st) (nat (int fr + (int tr - int fr) div 2))
                              (nat (int fc + (int tc - int fc) div 2))"
    using r by (simp add: mr mc inBounds_def)
next
  show "\<exists>res. fst (tryMove fr fc tr tc st) = Inr res"
    by (simp add: tryMove_fst [OF assms])
next
  show "map length (board (snd (tryMove fr fc tr tc st))) = map length (board st)"
  proof (cases "legalJump (board st) fr fc tr tc")
    case True
    then show ?thesis by (simp add: tryMove_legal [OF assms])
  next
    case False
    then show ?thesis by (simp add: tryMove_illegal)
  qed
qed


theorem tryMove_midpoint_safe_witness:
  "inBounds (board initialState) 3 1 \<and> inBounds (board initialState) 3 3 \<and>
   \<bar>int 3 - int 1\<bar> = 2 \<and> int 3 - int 3 = 0 \<and>
   rectangular (board initialState) \<and>
   inBounds (board initialState) (nat (int 3 + (int 3 - int 3) div 2))
                                 (nat (int 1 + (int 3 - int 1) div 2)) \<and>
   fst (tryMove 3 1 3 3 initialState) = Inr True \<and>
   map length (board (snd (tryMove 3 1 3 3 initialState))) = [7, 7, 7, 7, 7, 7, 7]"
proof -
  have a: "inBounds (board initialState) 3 1" and b: "inBounds (board initialState) 3 3"
    by (simp_all add: inBounds_def initialBoardLayout_def)
  have r: "rectangular (board initialState)"
    by (simp add: rectangular_def initialBoardLayout_def)
  have t: "fst (tryMove 3 1 3 3 initialState) = Inr True"
    by (simp add: tryMove_def readCell_def writeCell_def setIndex_def initialBoardLayout_def)
  have l: "map length (board initialState) = [7, 7, 7, 7, 7, 7, 7]"
    by (simp add: initialBoardLayout_def)
  from tryMove_midpoint_safe [OF a b] r l
  have "inBounds (board initialState) (nat (int 3 + (int 3 - int 3) div 2))
                                 (nat (int 1 + (int 3 - int 1) div 2)) \<and>
    map length (board (snd (tryMove 3 1 3 3 initialState))) = [7, 7, 7, 7, 7, 7, 7]"
    by simp
  with a b r t show ?thesis by simp
qed

section \<open>The terminal-state evaluation\<close>

lemma readCellOpt_holds:
  "v \<noteq> UNDEFINED \<Longrightarrow> readCellOpt b i j = v \<longleftrightarrow> holds b i j v"
  by (auto simp: readCellOpt_def holds_def)

lemma checkDirection_canJump:
  "checkDirection b r c d m = m + (if canJump b r c d then 1 else 0)"
  by (cases d) (auto simp: checkDirection_def canJump_def Let_def readCellOpt_holds)

lemma fold_checkDirection:
  "fold (checkDirection b r c) ds m = m + length (filter (canJump b r c) ds)"
  by (induction ds arbitrary: m) (simp_all add: checkDirection_canJump)

lemma filter_DIRECTIONS:
  "length (filter P DIRECTIONS) = length (filter P jumpDirections)"
  by (simp add: DIRECTIONS_def jumpDirections_def)

lemma fold_pair_sum:
  assumes "\<And>x p m. x \<in> set xs \<Longrightarrow> f x (p, m) = (p + g x, m + h x)"
  shows "fold f xs (p, m) = (p + sum_list (map g xs), m + sum_list (map h xs :: nat list))"
  using assms
proof (induction xs arbitrary: p m)
  case Nil
  then show ?case by simp
next
  case (Cons x xs)
  then show ?case by (simp add: add.assoc)
qed

lemma scanCell_sum: "scanCell b r c (p, m) = (p + pegAt b r c, m + movesAt b r c)"
  by (simp add: scanCell_def pegAt_def movesAt_def fold_checkDirection filter_DIRECTIONS)

lemma scanRow_sum:
  "scanRow b r (p, m) =
     (p + (\<Sum>c\<leftarrow>[0..<length (b ! r)]. pegAt b r c),
      m + (\<Sum>c\<leftarrow>[0..<length (b ! r)]. movesAt b r c))"
  unfolding scanRow_def by (rule fold_pair_sum) (rule scanCell_sum)

lemma scan_sum:
  "fold (scanRow b) [0..<length b] (0, 0) =
     (\<Sum>r\<leftarrow>[0..<length b]. \<Sum>c\<leftarrow>[0..<length (b ! r)]. pegAt b r c,
      \<Sum>r\<leftarrow>[0..<length b]. \<Sum>c\<leftarrow>[0..<length (b ! r)]. movesAt b r c)"
  using fold_pair_sum [of "[0..<length b]" "scanRow b" _ _ 0 0, OF scanRow_sum] by simp

lemma count_by_index:
  "length (filter P row) = (\<Sum>c\<leftarrow>[0..<length row]. if P (row ! c) then 1 else 0)"
proof (induction row rule: rev_induct)
  case Nil
  then show ?case by simp
next
  case (snoc x xs)
  have "(\<Sum>c\<leftarrow>[0..<length xs]. if P ((xs @ [x]) ! c) then 1 else 0 :: nat) =
        (\<Sum>c\<leftarrow>[0..<length xs]. if P (xs ! c) then 1 else 0)"
    by (rule arg_cong [where f = sum_list]) (simp add: nth_append)
  with snoc show ?case by simp
qed

lemma sum_by_index: "sum_list (map f xs) = (\<Sum>r\<leftarrow>[0..<length xs]. f (xs ! r))"
proof -
  have "map f xs = map f (map (\<lambda>r. xs ! r) [0..<length xs])"
    by (simp add: map_nth)
  then show ?thesis by (simp add: comp_def)
qed

lemma countPegs_by_index:
  "countPegs b = (\<Sum>r\<leftarrow>[0..<length b]. \<Sum>c\<leftarrow>[0..<length (b ! r)]. pegAt b r c)"
  unfolding countPegs_sum pegAt_def
  by (subst sum_by_index) (simp add: count_by_index [where P = "\<lambda>v. v = PEG"])

text \<open>
  C2. \<open>checkGameState\<close> only reads the state and returns the three fields:
  \<open>pegsRemaining\<close> is the number of PEG cells, \<open>isWin\<close> says that it is 1, and
  \<open>isGameOver\<close> that it is 1 or that the count of available moves is 0, where a move is
  counted for a PEG and a direction when the midpoint holds a PEG and the landing cell
  two steps away is in bounds and EMPTY.
\<close>

theorem checkGameState_spec:
  "checkGameState st =
     \<lparr>isGameOver = (countPegs (board st) = 1 \<or> availableMoves (board st) = 0),
      isWin = (countPegs (board st) = 1),
      pegsRemaining = countPegs (board st)\<rparr>"
  by (simp add: checkGameState_def scan_sum countPegs_by_index availableMoves_def movesAt_def)

lemma countPegs_initial: "countPegs initialBoardLayout = 32"
  by (simp add: countPegs_def initialBoardLayout_def)

lemma availableMoves_initial: "availableMoves initialBoardLayout = 4"
  by (simp add: availableMoves_def initialBoardLayout_def canJump_def holds_def
      jumpDirections_def upt_rec)

theorem checkGameState_spec_witness:
  "checkGameState initialState = \<lparr>isGameOver = False, isWin = False, pegsRemaining = 32\<rparr>"
  using checkGameState_spec [of initialState]
  by (simp add: countPegs_initial availableMoves_initial)

text \<open>The specification's two end-of-game scenarios: one peg left, and two isolated pegs.\<close>

lemma checkGameState_one_peg:
  "checkGameState \<lparr>board = [[EMPTY, EMPTY, EMPTY], [EMPTY, PEG, EMPTY], [EMPTY, EMPTY, EMPTY]],
                   selectedPeg = None\<rparr>
   = \<lparr>isGameOver = True, isWin = True, pegsRemaining = 1\<rparr>"
  by (simp add: checkGameState_def scanRow_def scanCell_def checkDirection_def
      readCellOpt_def DIRECTIONS_def upt_rec)

lemma checkGameState_two_isolated_pegs:
  "checkGameState \<lparr>board = [[PEG, EMPTY, EMPTY], [EMPTY, EMPTY, EMPTY], [EMPTY, EMPTY, PEG]],
                   selectedPeg = None\<rparr>
   = \<lparr>isGameOver = True, isWin = False, pegsRemaining = 2\<rparr>"
  by (simp add: checkGameState_def scanRow_def scanCell_def checkDirection_def
      readCellOpt_def DIRECTIONS_def upt_rec)

section \<open>Selecting a cell\<close>

text \<open>What \<open>selectCell\<close> does, case by case.\<close>

lemma selectCell_row_out:
  "\<not> r < length (board st) \<Longrightarrow> selectCell r c st = (Inl TypeError, st)"
  by (simp add: selectCell_def readCell_def)

lemma selectCell_PEG:
  "readCell (board st) r c = Inr PEG \<Longrightarrow>
   selectCell r c st =
     (Inr SELECT, st\<lparr>selectedPeg := (if selectedPeg st = Some (r, c) then None else Some (r, c))\<rparr>)"
  by (simp add: selectCell_def)

lemma selectCell_other:
  "readCell (board st) r c = Inr v \<Longrightarrow> v \<noteq> PEG \<Longrightarrow> v \<noteq> EMPTY \<or> selectedPeg st = None \<Longrightarrow>
   selectCell r c st = (Inr NO_ACTION, st)"
  by (auto simp: selectCell_def)

lemma selectCell_EMPTY:
  assumes "readCell (board st) r c = Inr EMPTY" and "selectedPeg st = Some (sr, sc)"
    and "inBounds (board st) sr sc"
  shows "selectCell r c st =
     (if legalJump (board st) sr sc r c
      then (Inr MOVE_SUCCESS,
            st\<lparr>board := putCell (putCell (putCell (board st) sr sc EMPTY)
                      ((sr + r) div 2) ((sc + c) div 2) EMPTY) r c PEG,
               selectedPeg := None\<rparr>)
      else (Inr NO_ACTION, st))"
proof -
  from assms(1) have t: "inBounds (board st) r c" by (rule readCell_EMPTY_inBounds)
  show ?thesis
  proof (cases "legalJump (board st) sr sc r c")
    case True
    then show ?thesis
      using assms by (simp add: selectCell_def tryMove_legal [OF assms(3) t True])
  next
    case False
    from tryMove_fst [OF assms(3) t] tryMove_illegal [OF False] False
    have "tryMove sr sc r c st = (Inr False, st)"
      by (metis prod.collapse)
    then show ?thesis
      using assms False by (simp add: selectCell_def)
  qed
qed

lemma readCell_cases:
  "\<not> r < length b \<or> (\<exists>v. r < length b \<and> readCell b r c = Inr v)"
  by (auto simp: readCell_def)

lemma restore_state [simp]: "state (restore m orig) = mementoState m"
  by (simp add: restore_def getState_def Let_def)

lemma restore_initialLayout [simp]: "initialLayout (restore m orig) = initialLayout orig"
  by (simp add: restore_def Let_def)

lemma sameInvalid_putCell:
  assumes "sameInvalid layout b" and "readCell b r c \<noteq> Inr INVALID" and "v \<noteq> INVALID"
  shows "sameInvalid layout (putCell b r c v)"
  using assms unfolding sameInvalid_def by (auto simp: readCell_putCell)

lemma readCell_putCell_not_INVALID:
  "readCell b r' c' \<noteq> Inr INVALID \<Longrightarrow> v \<noteq> INVALID \<Longrightarrow>
   readCell (putCell b r c v) r' c' \<noteq> Inr INVALID"
  by (simp add: readCell_putCell)

lemma stateInv_selectCell:
  assumes "stateInv layout st"
  shows "stateInv layout (snd (selectCell r c st))"
proof -
  from readCell_cases [of r "board st" c] consider
    (out) "\<not> r < length (board st)" |
    (val) v where "r < length (board st)" "readCell (board st) r c = Inr v"
    by auto
  then show ?thesis
  proof cases
  case out
  then show ?thesis using assms by (simp add: selectCell_row_out)
next
  case (val v)
  show ?thesis
  proof (cases "v = PEG")
    case True
    with val assms show ?thesis
      by (auto simp: selectCell_PEG stateInv_def selectionOnPeg_def)
  next
    case False
    show ?thesis
    proof (cases "v = EMPTY \<and> selectedPeg st \<noteq> None")
      case no: False
      then have "v \<noteq> EMPTY \<or> selectedPeg st = None" by blast
      from selectCell_other [OF val(2) False this] assms show ?thesis by simp
    next
      case True
      then obtain sr sc where sel: "selectedPeg st = Some (sr, sc)" and e: "readCell (board st) r c = Inr EMPTY"
        using val by auto
      from assms sel have p: "readCell (board st) sr sc = Inr PEG"
        by (simp add: stateInv_def selectionOnPeg_def)
      then have sb: "inBounds (board st) sr sc" by (rule readCell_PEG_inBounds)
      show ?thesis
      proof (cases "legalJump (board st) sr sc r c")
        case l: False
        then show ?thesis using assms by (simp add: selectCell_EMPTY [OF e sel sb])
      next
        case l: True
        note m = legalJump_midpoint [OF l]
        have "sameInvalid layout (putCell (putCell (putCell (board st) sr sc EMPTY)
                      ((sr + r) div 2) ((sc + c) div 2) EMPTY) r c PEG)"
          using assms p m e unfolding stateInv_def
          by (intro sameInvalid_putCell readCell_putCell_not_INVALID) simp_all
        then show ?thesis
          using l by (simp add: selectCell_EMPTY [OF e sel sb] stateInv_def selectionOnPeg_def)
      qed
    qed
  qed
qed
qed

lemma systemInv_applyOperation:
  assumes "systemInv layout ct"
  shows "systemInv layout (applyOperation op ct)"
proof (cases op)
  case (SelectCell r c)
  then show ?thesis
    using assms stateInv_selectCell [of layout "state (originator ct)" r c]
    by (simp add: systemInv_def)
next
  case RestartGame
  then show ?thesis
    using assms
    by (simp add: systemInv_def restartGame_def stateInv_def selectionOnPeg_def sameInvalid_def)
next
  case (Backup now)
  then show ?thesis
    using assms by (simp add: systemInv_def backup_def save_def)
next
  case Undo
  show ?thesis
  proof (cases "mementos ct = []")
    case True
    then show ?thesis using assms Undo by (simp add: undo_def)
  next
    case False
    then have "last (mementos ct) \<in> set (mementos ct)" by simp
    with assms have l: "stateInv layout (mementoState (last (mementos ct)))"
      by (simp add: systemInv_def)
    have "\<And>m. m \<in> set (butlast (mementos ct)) \<Longrightarrow> m \<in> set (mementos ct)"
      by (rule in_set_butlastD)
    with assms l False Undo show ?thesis
      by (simp add: systemInv_def undo_def)
  qed
next
  case (RestoreMemento i)
  show ?thesis
  proof (cases "i < length (mementos ct)")
    case True
    then have "mementos ct ! i \<in> set (mementos ct)" by simp
    with assms have "stateInv layout (mementoState (mementos ct ! i))"
      by (simp add: systemInv_def)
    with assms True RestoreMemento show ?thesis
      by (simp add: systemInv_def)
  next
    case False
    with assms RestoreMemento show ?thesis by simp
  qed
next
  case ClearHistory
  then show ?thesis using assms by (simp add: systemInv_def)
qed

lemma systemInv_initial: "systemInv layout (newCaretaker (newOriginator layout))"
  by (simp add: systemInv_def newCaretaker_def newOriginator_def stateInv_def
      selectionOnPeg_def sameInvalid_def)

lemma systemInv_fold:
  "systemInv layout ct \<Longrightarrow> systemInv layout (fold applyOperation ops ct)"
  by (induction ops arbitrary: ct) (simp_all add: systemInv_applyOperation)

lemma systemInv_run: "systemInv layout (run ops (newCaretaker (newOriginator layout)))"
  unfolding run_def by (rule systemInv_fold) (rule systemInv_initial)


text \<open>
  C5. In every state reached from a layout by any sequence of \<open>selectCell\<close>,
  \<open>restartGame\<close>, \<open>backup\<close>, \<open>undo\<close>, \<open>restore\<close> and clearing of the history, the selection is
  \<^verbatim>\<open>null\<close> or one position (its type holds no more), and a selected position holds a PEG.
\<close>

theorem selection_on_peg:
  "selectedPeg (state (originator (run ops (newCaretaker (newOriginator layout))))) = Some (r, c)
   \<Longrightarrow> readCell (board (state (originator (run ops (newCaretaker (newOriginator layout)))))) r c
       = Inr PEG"
  using systemInv_run [of layout ops]
  by (simp add: systemInv_def stateInv_def selectionOnPeg_def)

lemma run_example:
  "state (originator (run [SelectCell 3 1, Backup ''t'', SelectCell 3 3, SelectCell 3 5, Undo]
      (newCaretaker (newOriginator initialBoardLayout))))
   = \<lparr>board = initialBoardLayout, selectedPeg = Some (3, 1)\<rparr>"
  by (simp add: run_def newCaretaker_def newOriginator_def selectCell_def tryMove_def
      readCell_def writeCell_def setIndex_def backup_def save_def undo_def restore_def
      getState_def initialBoardLayout_def)

theorem selection_on_peg_witness:
  "selectedPeg (state (originator (run [SelectCell 3 1, Backup ''t'', SelectCell 3 3, SelectCell 3 5, Undo]
      (newCaretaker (newOriginator initialBoardLayout))))) = Some (3, 1) \<and>
   readCell (board (state (originator (run [SelectCell 3 1, Backup ''t'', SelectCell 3 3, SelectCell 3 5, Undo]
      (newCaretaker (newOriginator initialBoardLayout)))))) 3 1 = Inr PEG"
proof -
  have s: "selectedPeg (state (originator (run [SelectCell 3 1, Backup ''t'', SelectCell 3 3, SelectCell 3 5, Undo]
      (newCaretaker (newOriginator initialBoardLayout))))) = Some (3, 1)"
    by (subst run_example) simp
  from selection_on_peg [OF s] s show ?thesis by simp
qed

text \<open>
  C6, as stated, fails for \<open>tryMove\<close>: it checks neither origin nor destination, so on
  the initial layout the jump from \<open>(0, 3)\<close> over \<open>(0, 2)\<close> succeeds and puts a PEG on
  the INVALID cell \<open>(0, 1)\<close>.
\<close>

theorem invalid_cells_counterexample:
  "readCell (board initialState) 0 1 = Inr INVALID \<and>
   fst (tryMove 0 3 0 1 initialState) = Inr True \<and>
   readCell (board (snd (tryMove 0 3 0 1 initialState))) 0 1 = Inr PEG"
  by (simp add: tryMove_def readCell_def writeCell_def setIndex_def initialBoardLayout_def)

lemma selectCell_MOVE_SUCCESS:
  assumes "selectionOnPeg st" and "fst (selectCell r c st) = Inr MOVE_SUCCESS"
  shows "\<exists>sr sc. selectedPeg st = Some (sr, sc) \<and>
           readCell (board st) sr sc = Inr PEG \<and>
           readCell (board st) ((sr + r) div 2) ((sc + c) div 2) = Inr PEG \<and>
           readCell (board st) r c = Inr EMPTY"
proof -
  from readCell_cases [of r "board st" c] consider
    (out) "\<not> r < length (board st)" |
    (val) v where "r < length (board st)" "readCell (board st) r c = Inr v"
    by auto
  then show ?thesis
  proof cases
    case out
    with assms(2) show ?thesis by (simp add: selectCell_row_out)
  next
    case (val v)
    show ?thesis
    proof (cases "v = PEG")
      case True
      with val assms(2) show ?thesis by (simp add: selectCell_PEG)
    next
      case False
      show ?thesis
      proof (cases "v = EMPTY \<and> selectedPeg st \<noteq> None")
        case no: False
        then have "v \<noteq> EMPTY \<or> selectedPeg st = None" by blast
        from selectCell_other [OF val(2) False this] assms(2) show ?thesis by simp
      next
        case True
        then obtain sr sc where sel: "selectedPeg st = Some (sr, sc)"
          and e: "readCell (board st) r c = Inr EMPTY"
          using val by auto
        from assms(1) sel have p: "readCell (board st) sr sc = Inr PEG"
          by (simp add: selectionOnPeg_def)
        then have sb: "inBounds (board st) sr sc" by (rule readCell_PEG_inBounds)
        from assms(2) have "legalJump (board st) sr sc r c"
          by (simp add: selectCell_EMPTY [OF e sel sb] split: if_splits)
        with sel p e show ?thesis by (simp add: legalJump_midpoint)
      qed
    qed
  qed
qed

text \<open>
  C6, amended. In every state reached from a layout by \<open>selectCell\<close>, \<open>restartGame\<close>,
  \<open>backup\<close>, \<open>undo\<close>, \<open>restore\<close> and clearing of the history, the INVALID cells are exactly those
  of the layout, so none ever changes value; a move that \<open>selectCell\<close> makes from such a
  state has a PEG on its origin and midpoint and an EMPTY destination, none of them
  INVALID; and the midpoint of any successful \<open>tryMove\<close> holds a PEG.
\<close>

theorem invalid_cells_inert:
  "(\<forall>r c. readCell (board (state (originator (run ops (newCaretaker (newOriginator layout)))))) r c
            = Inr INVALID
        \<longleftrightarrow> readCell layout r c = Inr INVALID) \<and>
   (\<forall>r c. fst (selectCell r c (state (originator (run ops (newCaretaker (newOriginator layout))))))
             = Inr MOVE_SUCCESS \<longrightarrow>
      (\<exists>sr sc. selectedPeg (state (originator (run ops (newCaretaker (newOriginator layout)))))
                 = Some (sr, sc) \<and>
         readCell (board (state (originator (run ops (newCaretaker (newOriginator layout))))))
            sr sc = Inr PEG \<and>
         readCell (board (state (originator (run ops (newCaretaker (newOriginator layout))))))
            ((sr + r) div 2) ((sc + c) div 2) = Inr PEG \<and>
         readCell (board (state (originator (run ops (newCaretaker (newOriginator layout))))))
            r c = Inr EMPTY)) \<and>
   (\<forall>fr fc tr tc st. fst (tryMove fr fc tr tc st) = Inr True \<longrightarrow>
      readCell (board st) ((fr + tr) div 2) ((fc + tc) div 2) = Inr PEG)"
proof (intro conjI allI impI)
  fix r c
  show "readCell (board (state (originator (run ops (newCaretaker (newOriginator layout)))))) r c
            = Inr INVALID
        \<longleftrightarrow> readCell layout r c = Inr INVALID"
    using systemInv_run [of layout ops]
    by (simp add: systemInv_def stateInv_def sameInvalid_def)
next
  fix r c
  assume "fst (selectCell r c (state (originator (run ops (newCaretaker (newOriginator layout))))))
             = Inr MOVE_SUCCESS"
  moreover have "selectionOnPeg (state (originator (run ops (newCaretaker (newOriginator layout)))))"
    using systemInv_run [of layout ops] by (simp add: systemInv_def stateInv_def)
  ultimately show "\<exists>sr sc. selectedPeg (state (originator (run ops (newCaretaker (newOriginator layout)))))
                 = Some (sr, sc) \<and>
         readCell (board (state (originator (run ops (newCaretaker (newOriginator layout))))))
            sr sc = Inr PEG \<and>
         readCell (board (state (originator (run ops (newCaretaker (newOriginator layout))))))
            ((sr + r) div 2) ((sc + c) div 2) = Inr PEG \<and>
         readCell (board (state (originator (run ops (newCaretaker (newOriginator layout))))))
            r c = Inr EMPTY"
    by (rule selectCell_MOVE_SUCCESS [rotated])
next
  fix fr fc tr tc st
  assume "fst (tryMove fr fc tr tc st) = Inr True"
  then have "legalJump (board st) fr fc tr tc"
    using tryMove_illegal [of st fr fc tr tc] by auto
  then show "readCell (board st) ((fr + tr) div 2) ((fc + tc) div 2) = Inr PEG"
    by (rule legalJump_midpoint)
qed

theorem invalid_cells_inert_witness:
  "readCell (board (state (originator (run [SelectCell 3 1]
      (newCaretaker (newOriginator initialBoardLayout)))))) 0 0 = Inr INVALID \<and>
   fst (selectCell 3 3 (state (originator (run [SelectCell 3 1]
      (newCaretaker (newOriginator initialBoardLayout)))))) = Inr MOVE_SUCCESS \<and>
   readCell (board (state (originator (run [SelectCell 3 1]
      (newCaretaker (newOriginator initialBoardLayout)))))) 3 3 = Inr EMPTY \<and>
   fst (tryMove 3 1 3 3 initialState) = Inr True \<and>
   readCell (board initialState) ((3 + 3) div 2) ((1 + 3) div 2) = Inr PEG"
proof -
  let ?S = "state (originator (run [SelectCell 3 1]
      (newCaretaker (newOriginator initialBoardLayout))))"
  note inert = invalid_cells_inert [of "[SelectCell 3 1]" initialBoardLayout]
  have l: "readCell initialBoardLayout 0 0 = Inr INVALID"
    by (simp add: readCell_def initialBoardLayout_def)
  have S: "?S = \<lparr>board = initialBoardLayout, selectedPeg = Some (3, 1)\<rparr>"
    by (simp add: run_def newCaretaker_def newOriginator_def selectCell_def readCell_def
        initialBoardLayout_def)
  have m: "fst (selectCell 3 3 ?S) = Inr MOVE_SUCCESS"
    unfolding S
    by (simp add: selectCell_def tryMove_def readCell_def writeCell_def setIndex_def
        initialBoardLayout_def)
  have t: "fst (tryMove 3 1 3 3 initialState) = Inr True"
    by (simp add: tryMove_def readCell_def writeCell_def setIndex_def initialBoardLayout_def)
  from inert l have 1: "readCell (board ?S) 0 0 = Inr INVALID" by blast
  from inert m have 2: "readCell (board ?S) 3 3 = Inr EMPTY" by blast
  from inert t have 3: "readCell (board initialState) ((3 + 3) div 2) ((1 + 3) div 2) = Inr PEG"
    by blast
  from 1 m 2 t 3 show ?thesis by blast
qed

text \<open>
  C7, as stated, fails: for a row index outside the board, \<^verbatim>\<open>board[r]\<close> is
  \<^verbatim>\<open>undefined\<close> and \<open>selectCell\<close> throws.
\<close>

theorem selectCell_out_of_bounds_counterexample:
  "selectCell 7 0 initialState = (Inl TypeError, initialState)"
  by (simp add: selectCell_def readCell_def initialBoardLayout_def)

text \<open>
  C7, amended. From a state whose selection, if any, is in bounds: when \<open>r\<close> is a row
  index, \<open>selectCell\<close> returns without an exception, and for a column outside that row
  it returns \<open>NO_ACTION\<close> and leaves the state as it was; when \<open>r\<close> is not a row index
  it throws a \<open>TypeError\<close>, the state untouched.
\<close>

theorem selectCell_exception_iff:
  assumes "\<forall>sr sc. selectedPeg st = Some (sr, sc) \<longrightarrow> inBounds (board st) sr sc"
  shows "(r < length (board st) \<longrightarrow>
            (\<exists>a. fst (selectCell r c st) = Inr a) \<and>
            (\<not> c < length (board st ! r) \<longrightarrow> selectCell r c st = (Inr NO_ACTION, st))) \<and>
         (\<not> r < length (board st) \<longrightarrow> selectCell r c st = (Inl TypeError, st))"
proof (intro conjI impI)
  assume "\<not> r < length (board st)"
  then show "selectCell r c st = (Inl TypeError, st)" by (rule selectCell_row_out)
next
  assume r: "r < length (board st)" and "\<not> c < length (board st ! r)"
  then have "readCell (board st) r c = Inr UNDEFINED" by (simp add: readCell_def)
  then show "selectCell r c st = (Inr NO_ACTION, st)"
    by (rule selectCell_other) simp_all
next
  assume r: "r < length (board st)"
  then obtain v where v: "readCell (board st) r c = Inr v" by (simp add: readCell_def)
  show "\<exists>a. fst (selectCell r c st) = Inr a"
  proof (cases "v = PEG")
    case True
    with v show ?thesis by (simp add: selectCell_PEG)
  next
    case False
    show ?thesis
    proof (cases "v = EMPTY \<and> selectedPeg st \<noteq> None")
      case no: False
      then have "v \<noteq> EMPTY \<or> selectedPeg st = None" by blast
      from selectCell_other [OF v False this] show ?thesis by simp
    next
      case True
      then obtain sr sc where sel: "selectedPeg st = Some (sr, sc)"
        and e: "readCell (board st) r c = Inr EMPTY"
        using v by auto
      from assms sel have sb: "inBounds (board st) sr sc" by simp
      show ?thesis by (simp add: selectCell_EMPTY [OF e sel sb])
    qed
  qed
qed

theorem selectCell_exception_iff_witness:
  "inBounds initialBoardLayout 3 1 \<and>
   fst (selectCell 3 3 \<lparr>board = initialBoardLayout, selectedPeg = Some (3, 1)\<rparr>)
     = Inr MOVE_SUCCESS \<and>
   selectCell 3 9 \<lparr>board = initialBoardLayout, selectedPeg = Some (3, 1)\<rparr>
     = (Inr NO_ACTION, \<lparr>board = initialBoardLayout, selectedPeg = Some (3, 1)\<rparr>) \<and>
   selectCell 7 0 \<lparr>board = initialBoardLayout, selectedPeg = Some (3, 1)\<rparr>
     = (Inl TypeError, \<lparr>board = initialBoardLayout, selectedPeg = Some (3, 1)\<rparr>)"
proof -
  let ?st = "\<lparr>board = initialBoardLayout, selectedPeg = Some (3, 1)\<rparr>"
  have b: "inBounds initialBoardLayout 3 1"
    by (simp add: inBounds_def initialBoardLayout_def)
  then have h: "\<forall>sr sc. selectedPeg ?st = Some (sr, sc) \<longrightarrow> inBounds (board ?st) sr sc"
    by simp
  have len: "length (board ?st) = 7" "length (board ?st ! 3) = 7"
    by (simp_all add: initialBoardLayout_def)
  have m: "fst (selectCell 3 3 ?st) = Inr MOVE_SUCCESS"
    by (simp add: selectCell_def tryMove_def readCell_def writeCell_def setIndex_def
        initialBoardLayout_def)
  from selectCell_exception_iff [OF h, of 3 9] len
  have 1: "selectCell 3 9 ?st = (Inr NO_ACTION, ?st)" by simp
  from selectCell_exception_iff [OF h, of 7 0] len
  have 2: "selectCell 7 0 ?st = (Inl TypeError, ?st)" by simp
  from b m 1 2 show ?thesis by blast
qed

section \<open>The history\<close>

lemma handleCellClick_history:
  "mementos (caretaker (snd (handleCellClick now r c ui))) =
     (if gameStarted ui \<and>
         readCell (board (state (originator (caretaker ui)))) r c = Inr EMPTY \<and>
         selectedPeg (state (originator (caretaker ui))) \<noteq> None
      then mementos (caretaker ui) @ [save now (originator (caretaker ui))]
      else mementos (caretaker ui))"
  by (auto simp: handleCellClick_def Let_def setEngineState_def checkGameStatus_def backup_def
      split: sum.splits prod.splits)

lemma startGame_history: "mementos (caretaker (handleStartRestart ui)) = []"
  by (simp add: handleStartRestart_def startGame_def)

lemma handleStop_history: "mementos (caretaker (handleStop ui)) = []"
  by (simp add: handleStop_def resetUI_def)

lemma handleUndo_history: "mementos (caretaker (handleUndo ui)) = butlast (mementos (caretaker ui))"
  by (simp add: handleUndo_def undo_def)

text \<open>
  C9. The history is emptied by start, restart and stop, and an undo drops its last entry;
  but a click grows it whenever the clicked cell is EMPTY and a peg is selected, also when
  the move then fails. After starting a game, selecting the peg at \<open>(0, 2)\<close> and
  clicking the centre, \<open>selectCell\<close> answers \<open>NO_ACTION\<close>, the state is unchanged and
  the history holds one memento; the undo that follows changes nothing but the history.
\<close>

theorem history_grows_on_failed_move:
  "mementos (caretaker (handleStartRestart gameUI)) = [] \<and>
   mementos (caretaker (snd (handleCellClick ''2026-01-01 10:00:03'' 0 2
       (handleStartRestart gameUI)))) = [] \<and>
   state (originator (caretaker (snd (handleCellClick ''2026-01-01 10:00:03'' 0 2
       (handleStartRestart gameUI)))))
     = \<lparr>board = initialBoardLayout, selectedPeg = Some (0, 2)\<rparr> \<and>
   selectCell 3 3 \<lparr>board = initialBoardLayout, selectedPeg = Some (0, 2)\<rparr>
     = (Inr NO_ACTION, \<lparr>board = initialBoardLayout, selectedPeg = Some (0, 2)\<rparr>) \<and>
   state (originator (caretaker failedMoveClicks))
     = \<lparr>board = initialBoardLayout, selectedPeg = Some (0, 2)\<rparr> \<and>
   length (mementos (caretaker failedMoveClicks)) = 1 \<and>
   state (originator (caretaker (handleUndo failedMoveClicks)))
     = state (originator (caretaker failedMoveClicks)) \<and>
   mementos (caretaker (handleUndo failedMoveClicks)) = []"
  by (simp add: failedMoveClicks_def handleCellClick_def handleStartRestart_def startGame_def
      gameUI_def newUI_def theCaretaker_def newCaretaker_def theOriginator_def newOriginator_def
      restartGame_def setEngineState_def backup_def save_def
      handleUndo_def undo_def restore_def getState_def
      selectCell_def tryMove_def readCell_def initialBoardLayout_def)


section \<open>The store\<close>

lemma stateValue_frame:
  assumes "\<forall>a \<in> stateRefs s st. s' ! a = s ! a"
  shows "stateValue s' st = stateValue s st" and "stateRefs s' st = stateRefs s st"
    and "boardRef s' st = boardRef s st" and "selectedPegRef s' st = selectedPegRef s st"
    and "rowRefs s' (boardRef s st) = rowRefs s (boardRef s st)"
proof -
  from assms have st: "s' ! st = s ! st" by (simp add: stateRefs_def)
  then show b: "boardRef s' st = boardRef s st" and p: "selectedPegRef s' st = selectedPegRef s st"
    by (simp_all add: boardRef_def selectedPegRef_def)
  from assms have "s' ! boardRef s st = s ! boardRef s st" by (simp add: stateRefs_def)
  then show r: "rowRefs s' (boardRef s st) = rowRefs s (boardRef s st)"
    by (simp add: rowRefs_def)
  from assms have rows: "\<forall>a \<in> set (rowRefs s (boardRef s st)). s' ! a = s ! a"
    by (simp add: stateRefs_def)
  have pv: "pegValue s' (selectedPegRef s st) = pegValue s (selectedPegRef s st)"
    using assms by (cases "selectedPegRef s st") (simp_all add: pegValue_def stateRefs_def)
  show "stateValue s' st = stateValue s st"
    using rows by (simp add: stateValue_def b p r pv boardValue_def rowValue_def)
  show "stateRefs s' st = stateRefs s st"
    by (simp add: stateRefs_def b p r)
qed

lemma wfState_frame:
  assumes "\<forall>a \<in> stateRefs s st. s' ! a = s ! a" and "length s \<le> length s'" and "wfState s st"
  shows "wfState s' st"
proof -
  note f = stateValue_frame [OF assms(1)]
  from assms(1) have st: "s' ! st = s ! st" and b: "s' ! boardRef s st = s ! boardRef s st"
    and rows: "\<forall>a \<in> set (rowRefs s (boardRef s st)). s' ! a = s ! a"
    and peg: "\<forall>a. selectedPegRef s st = Some a \<longrightarrow> s' ! a = s ! a"
    by (simp_all add: stateRefs_def)
  show ?thesis
    using assms(2,3) st b rows peg unfolding wfState_def f(3,4,5)
    by (auto simp: less_le_trans)
qed

lemma wfState_bound: "wfState s st \<Longrightarrow> a \<in> stateRefs s st \<Longrightarrow> a < length s"
  by (auto simp: wfState_def stateRefs_def)

lemma engineStep_refl: "wfState s e \<Longrightarrow> engineStep e s s"
  by (simp add: engineStep_def)

lemma engineStep_trans:
  assumes "engineStep e s s'" and "engineStep e s' s''"
  shows "engineStep e s s''"
  unfolding engineStep_def
proof (intro conjI allI impI)
  show "length s \<le> length s''"
    using assms by (simp add: engineStep_def)
  show "wfState s'' e"
    using assms by (simp add: engineStep_def)
  show "stateRefs s'' e \<subseteq> stateRefs s e \<union> {length s..<length s''}"
    using assms unfolding engineStep_def by fastforce
next
  fix a assume a: "a < length s" "a \<notin> stateRefs s e"
  with assms(1) have 1: "s' ! a = s ! a" and "a < length s'" and "a \<notin> stateRefs s' e"
    unfolding engineStep_def by auto
  with assms(2) have "s'' ! a = s' ! a"
    unfolding engineStep_def by auto
  with 1 show "s'' ! a = s ! a" by simp
qed

lemma alloc_eq: "alloc obj s = (length s, s @ [obj])"
  by (simp add: alloc_def)

lemma allocBoard_eq:
  "allocBoard bv s =
     (length s + length bv, s @ map RowArray bv @ [BoardArray [length s..<length s + length bv]])"
  by (simp add: allocBoard_def alloc_def)

lemma allocPeg_cases:
  obtains (none) "p = None" "allocPeg p s = (None, s)"
  | (some) r c where "p = Some (r, c)" "allocPeg p s = (Some (length s), s @ [PegObject r c])"
  by (cases p) (auto simp: allocPeg_def alloc_def)

text \<open>Extending the store keeps a well-formed state as it is.\<close>

lemma append_frame:
  assumes "wfState s e"
  shows "stateValue (s @ new) e = stateValue s e" and "stateRefs (s @ new) e = stateRefs s e"
    and "wfState (s @ new) e" and "boardRef (s @ new) e = boardRef s e"
    and "selectedPegRef (s @ new) e = selectedPegRef s e"
proof -
  have f: "\<forall>a \<in> stateRefs s e. (s @ new) ! a = s ! a"
    using wfState_bound [OF assms] by (simp add: nth_append)
  show "stateValue (s @ new) e = stateValue s e" "stateRefs (s @ new) e = stateRefs s e"
    "boardRef (s @ new) e = boardRef s e" "selectedPegRef (s @ new) e = selectedPegRef s e"
    using stateValue_frame [OF f] by simp_all
  show "wfState (s @ new) e"
    using wfState_frame [OF f _ assms] by simp
qed

text \<open>Assigning a freshly allocated selection to the engine's state object.\<close>

lemma assignSelectedPeg_step:
  assumes "wfState s e"
    and "p = None \<and> new = [] \<or> (\<exists>r c. p = Some (length s) \<and> new = [PegObject r c])"
  shows "engineStep e s (assignSelectedPeg e p (s @ new))"
    and "boardRef (assignSelectedPeg e p (s @ new)) e = boardRef s e"
    and "selectedPegRef (assignSelectedPeg e p (s @ new)) e = p"
proof -
  let ?s1 = "s @ new" and ?s2 = "assignSelectedPeg e p (s @ new)"
  note ap = append_frame [OF assms(1), of new]
  from assms(1) have e: "e < length s" and eobj: "\<exists>b p. s ! e = StateObject b p"
    by (simp_all add: wfState_def)
  have s2: "?s2 = ?s1[e := StateObject (boardRef s e) p]"
    by (simp add: assignSelectedPeg_def ap)
  have at_e: "?s2 ! e = StateObject (boardRef s e) p"
    using e by (simp add: s2)
  have other: "?s2 ! a = ?s1 ! a" if "a \<noteq> e" for a
    using that by (simp add: s2)
  show b: "boardRef ?s2 e = boardRef s e" and p: "selectedPegRef ?s2 e = p"
    using at_e by (simp_all add: boardRef_def selectedPegRef_def)
  have bne: "boardRef s e \<noteq> e"
    using assms(1) by (auto simp: wfState_def)
  have rne: "a \<noteq> e" if "a \<in> set (rowRefs s (boardRef s e))" for a
    using assms(1) that by (auto simp: wfState_def)
  have bobj: "?s2 ! boardRef s e = s ! boardRef s e"
    using bne assms(1) by (simp add: other nth_append wfState_def)
  then have rows: "rowRefs ?s2 (boardRef s e) = rowRefs s (boardRef s e)"
    by (simp add: rowRefs_def)
  have robj: "?s2 ! a = s ! a" if "a \<in> set (rowRefs s (boardRef s e))" for a
    using rne [OF that] that assms(1) by (simp add: other nth_append wfState_def)
  have len: "length ?s2 = length s + length new"
    by (simp add: s2)
  have pobj: "\<forall>a. p = Some a \<longrightarrow> a < length ?s2 \<and> (\<exists>r c. ?s2 ! a = PegObject r c)"
    unfolding s2 using assms(2) e by auto
  have wf: "wfState ?s2 e"
    unfolding wfState_def b p rows
    using assms(1) e at_e bobj robj len pobj
    by (auto simp: wfState_def)
  have refs: "stateRefs ?s2 e \<subseteq> stateRefs s e \<union> {length s..<length ?s2}"
    using assms(2) by (auto simp: stateRefs_def b p rows len)
  have frame: "\<forall>a < length s. a \<notin> stateRefs s e \<longrightarrow> ?s2 ! a = s ! a"
    by (auto simp: stateRefs_def other nth_append)
  show "engineStep e s ?s2"
    unfolding engineStep_def using wf refs frame len by simp
qed

text \<open>Assigning a freshly allocated board to the engine's state object.\<close>

lemma assignBoard_step:
  fixes s :: store and bv :: board
  assumes "wfState s e"
  defines "s1 \<equiv> s @ map RowArray bv @ [BoardArray [length s..<length s + length bv]]"
  defines "s2 \<equiv> assignBoard e (length s + length bv) s1"
  shows "engineStep e s s2"
    and "boardRef s2 e = length s + length bv"
    and "selectedPegRef s2 e = selectedPegRef s e"
    and "boardValue s2 (boardRef s2 e) = bv"
    and "pegValue s2 (selectedPegRef s2 e) = pegValue s (selectedPegRef s e)"
    and "\<forall>a < length s. a \<noteq> e \<longrightarrow> s2 ! a = s ! a"
proof -
  let ?n = "length s" and ?b = "length s + length bv"
  have ap: "selectedPegRef s1 e = selectedPegRef s e"
    unfolding s1_def by (rule append_frame [OF assms(1)])
  from assms(1) have e: "e < ?n" by (simp add: wfState_def)
  have s2: "s2 = s1[e := StateObject ?b (selectedPegRef s e)]"
    by (simp add: s2_def assignBoard_def ap)
  have len1: "length s1 = ?b + 1" by (simp add: s1_def)
  have len: "length s2 = ?b + 1" by (simp add: s2 len1)
  have at_e: "s2 ! e = StateObject ?b (selectedPegRef s e)"
    using e by (simp add: s2 len1)
  have old: "s2 ! a = s ! a" if "a < ?n" "a \<noteq> e" for a
    using that by (simp add: s2 s1_def nth_append)
  then show "\<forall>a < length s. a \<noteq> e \<longrightarrow> s2 ! a = s ! a" by simp
  have at_b: "s2 ! ?b = BoardArray [?n..<?b]"
    using e by (simp add: s2 s1_def nth_append)
  have at_row: "s2 ! (?n + i) = RowArray (bv ! i)" if "i < length bv" for i
    using that e by (simp add: s2 s1_def nth_append)
  show b: "boardRef s2 e = ?b" and p: "selectedPegRef s2 e = selectedPegRef s e"
    using at_e by (simp_all add: boardRef_def selectedPegRef_def)
  have rows: "rowRefs s2 ?b = [?n..<?b]"
    using at_b by (simp add: rowRefs_def)
  show bval: "boardValue s2 (boardRef s2 e) = bv"
    unfolding b boardValue_def rows
    by (rule nth_equalityI) (simp_all add: rowValue_def at_row)
  have pobj: "s2 ! a = s ! a" if "selectedPegRef s e = Some a" for a
  proof -
    from assms(1) that have "a < ?n" and "\<exists>r c. s ! a = PegObject r c"
      by (simp_all add: wfState_def)
    moreover from assms(1) have "\<exists>b p. s ! e = StateObject b p" by (simp add: wfState_def)
    ultimately show ?thesis by (intro old) auto
  qed
  show "pegValue s2 (selectedPegRef s2 e) = pegValue s (selectedPegRef s e)"
    unfolding p by (cases "selectedPegRef s e") (simp_all add: pegValue_def pobj)
  have wf: "wfState s2 e"
    unfolding wfState_def b p rows
  proof (intro conjI ballI allI impI)
    show "e < length s2" using e len by simp
    show "\<exists>b p. s2 ! e = StateObject b p" using at_e by simp
    show "?b < length s2" using len by simp
    show "\<exists>rows. s2 ! ?b = BoardArray rows" using at_b by simp
    show "distinct [?n..<?b]" by simp
  next
    fix a assume "a \<in> set [?n..<?b]"
    then obtain i where i: "a = ?n + i" "i < length bv"
      by (auto simp: nat_le_iff_add)
    then show "a < length s2" "\<exists>cells. s2 ! a = RowArray cells"
      using len at_row by simp_all
  next
    fix a assume a: "selectedPegRef s e = Some a"
    with assms(1) have "a < ?n" "\<exists>r c. s ! a = PegObject r c"
      by (simp_all add: wfState_def)
    with pobj [OF a] len show "a < length s2" "\<exists>r c. s2 ! a = PegObject r c"
      by simp_all
  qed
  have refs: "stateRefs s2 e \<subseteq> stateRefs s e \<union> {?n..<length s2}"
    by (auto simp: stateRefs_def b p rows len)
  show "engineStep e s s2"
    unfolding engineStep_def using wf refs len old by (auto simp: stateRefs_def)
qed

lemma board_stateValue [simp]: "board (stateValue s st) = boardValue s (boardRef s st)"
  and selectedPeg_stateValue [simp]:
    "selectedPeg (stateValue s st) = pegValue s (selectedPegRef s st)"
  by (simp_all add: stateValue_def)

lemma readCell_s_eq: "readCell_s s b r c = readCell (boardValue s b) r c"
  by (simp add: readCell_s_def readCell_def boardValue_def Let_def)

lemma writeCell_s_Inl:
  "writeCell_s s b r c v = Inl x \<Longrightarrow> writeCell (boardValue s b) r c v = Inl x"
  by (auto simp: writeCell_s_def writeCell_def boardValue_def split: if_splits)

lemma writeCell_s_Inr:
  assumes wf: "wfState s e" and w: "writeCell_s s (boardRef s e) r c v = Inr s'"
  shows "engineStep e s s'"
    and "boardRef s' e = boardRef s e"
    and "pegValue s' (selectedPegRef s' e) = pegValue s (selectedPegRef s e)"
    and "writeCell (boardValue s (boardRef s e)) r c v = Inr (boardValue s' (boardRef s e))"
proof -
  let ?b = "boardRef s e" and ?rows = "rowRefs s (boardRef s e)"
  let ?a = "?rows ! r"
  let ?new = "setIndex (rowValue s ?a) c v"
  from w have r: "r < length ?rows" and s': "s' = s[?a := RowArray ?new]"
    by (auto simp: writeCell_s_def split: if_splits)
  from r have a_in: "?a \<in> set ?rows" by simp
  with wf have a: "?a < length s" and a_row: "\<exists>cells. s ! ?a = RowArray cells"
    by (simp_all add: wfState_def)
  from wf have e: "e < length s" and e_obj: "\<exists>b p. s ! e = StateObject b p"
    and b: "?b < length s" and b_obj: "\<exists>rows. s ! ?b = BoardArray rows"
    and dist: "distinct ?rows"
    by (simp_all add: wfState_def)
  have ne: "?a \<noteq> e" "?a \<noteq> ?b"
    using a_row e_obj b_obj by auto
  have pne: "?a \<noteq> p" if "selectedPegRef s e = Some p" for p
    using wf that a_row by (auto simp: wfState_def)
  have other: "s' ! x = s ! x" if "x \<noteq> ?a" for x
    using that by (simp add: s')
  have at_a: "s' ! ?a = RowArray ?new"
    using a by (simp add: s')
  have len: "length s' = length s" by (simp add: s')
  show bref: "boardRef s' e = ?b"
    using ne by (simp add: boardRef_def other)
  have pref: "selectedPegRef s' e = selectedPegRef s e"
    using ne by (simp add: selectedPegRef_def other)
  have rows: "rowRefs s' ?b = ?rows"
    using ne by (simp add: rowRefs_def other)
  show "pegValue s' (selectedPegRef s' e) = pegValue s (selectedPegRef s e)"
    unfolding pref using pne
    by (cases "selectedPegRef s e") (simp_all add: pegValue_def other)
  have rv: "rowValue s' (?rows ! i) = (if i = r then ?new else rowValue s (?rows ! i))"
    if "i < length ?rows" for i
  proof (cases "i = r")
    case True
    then show ?thesis by (simp add: rowValue_def at_a)
  next
    case False
    with dist that r have "?rows ! i \<noteq> ?a"
      by (simp add: nth_eq_iff_index_eq)
    with False show ?thesis by (simp add: rowValue_def other)
  qed
  have "boardValue s' ?b = (boardValue s ?b)[r := setIndex (boardValue s ?b ! r) c v]"
    unfolding boardValue_def rows
    by (rule nth_equalityI) (use r in \<open>auto simp: rv nth_list_update\<close>)
  then show "writeCell (boardValue s ?b) r c v = Inr (boardValue s' ?b)"
    using r by (simp add: writeCell_def boardValue_def)
  have rowobj: "\<exists>cells. s' ! x = RowArray cells" if "x \<in> set ?rows" for x
  proof (cases "x = ?a")
    case True
    then show ?thesis using at_a by simp
  next
    case False
    with wf that show ?thesis by (simp add: other wfState_def)
  qed
  have pegobj: "\<exists>r c. s' ! p = PegObject r c" if "selectedPegRef s e = Some p" for p
    using wf that pne [OF that] by (simp add: other wfState_def)
  have wf': "wfState s' e"
    unfolding wfState_def bref pref rows
    using wf len ne rowobj pegobj
    by (simp add: wfState_def other)
  have refs: "stateRefs s' e = stateRefs s e"
    by (simp add: stateRefs_def bref pref rows)
  have "s' ! x = s ! x" if "x \<notin> stateRefs s e" for x
  proof -
    from that a_in have "x \<noteq> ?a" by (auto simp: stateRefs_def)
    then show ?thesis by (rule other)
  qed
  then have "\<forall>x < length s. x \<notin> stateRefs s e \<longrightarrow> s' ! x = s ! x" by simp
  then show "engineStep e s s'"
    unfolding engineStep_def using wf' refs len by simp
qed

lemma stateValue_eqI:
  "boardValue s' (boardRef s' e) = bv \<Longrightarrow>
   pegValue s' (selectedPegRef s' e) = selectedPeg v \<Longrightarrow>
   stateValue s' e = v\<lparr>board := bv\<rparr>"
  by (simp add: stateValue_def)

lemma engineStep_wf: "engineStep e s s' \<Longrightarrow> wfState s' e"
  by (simp add: engineStep_def)

lemma tryMove_s_invalid:
  "\<not> validDistance fr fc tr tc \<Longrightarrow> tryMove_s fr fc tr tc orig s = (Inr False, s)"
  by (auto simp: tryMove_s_def validDistance_def Let_def)

lemma tryMove_s_valid:
  assumes "validDistance fr fc tr tc"
  shows "tryMove_s fr fc tr tc orig s =
    (case readCell_s s (boardRef s (stateRef orig)) ((fr + tr) div 2) ((fc + tc) div 2) of
       Inl e \<Rightarrow> (Inl e, s)
     | Inr m \<Rightarrow>
         if m \<noteq> PEG then (Inr False, s)
         else
           (case writeCell_s s (boardRef s (stateRef orig)) fr fc EMPTY of
              Inl e \<Rightarrow> (Inl e, s)
            | Inr s1 \<Rightarrow>
                (case writeCell_s s1 (boardRef s (stateRef orig))
                        ((fr + tr) div 2) ((fc + tc) div 2) EMPTY of
                   Inl e \<Rightarrow> (Inl e, s1)
                 | Inr s2 \<Rightarrow>
                     (case writeCell_s s2 (boardRef s (stateRef orig)) tr tc PEG of
                        Inl e \<Rightarrow> (Inl e, s2)
                      | Inr s3 \<Rightarrow> (Inr True, s3)))))"
proof -
  have mr: "nat (int fr + (int tr - int fr) div 2) = (fr + tr) div 2"
    using assms by (auto simp: validDistance_def midpoint_nat)
  have mc: "nat (int fc + (int tc - int fc) div 2) = (fc + tc) div 2"
    using assms by (auto simp: validDistance_def midpoint_nat)
  have v: "(\<bar>int tr - int fr\<bar> = 2 \<and> int tc - int fc = 0) \<or>
           (\<bar>int tc - int fc\<bar> = 2 \<and> int tr - int fr = 0)"
    using assms by (auto simp: validDistance_def)
  show ?thesis
    unfolding tryMove_s_def Let_def mr mc using v by simp
qed

lemma tryMove_s_sim:
  assumes wf: "wfState s (stateRef orig)"
  shows "fst (tryMove_s fr fc tr tc orig s) = fst (tryMove fr fc tr tc (stateValue s (stateRef orig))) \<and>
         stateValue (snd (tryMove_s fr fc tr tc orig s)) (stateRef orig)
           = snd (tryMove fr fc tr tc (stateValue s (stateRef orig))) \<and>
         engineStep (stateRef orig) s (snd (tryMove_s fr fc tr tc orig s))"
proof -
  let ?e = "stateRef orig"
  let ?b = "boardRef s ?e"
  let ?v = "stateValue s ?e"
  let ?mr = "(fr + tr) div 2"
  let ?mc = "(fc + tc) div 2"
  note refl = engineStep_refl [OF wf]
  show ?thesis
  proof (cases "validDistance fr fc tr tc")
    case False
    then show ?thesis using refl by (simp add: tryMove_s_invalid tryMove_invalid)
  next
    case valid: True
    note unf = tryMove_s_valid [OF valid] tryMove_valid [OF valid] readCell_s_eq
      board_stateValue
    show ?thesis
    proof (cases "readCell (boardValue s ?b) ?mr ?mc")
      case (Inl x)
      then show ?thesis
        using refl by (simp add: unf)
    next
      case (Inr m)
      show ?thesis
      proof (cases "m = PEG")
        case False
        then show ?thesis
          using refl Inr by (simp add: unf)
      next
        case peg: True
        show ?thesis
        proof (cases "writeCell_s s ?b fr fc EMPTY")
          case w1: (Inl x)
          from writeCell_s_Inl [OF w1] show ?thesis
            using refl Inr peg w1 by (simp add: unf)
        next
          case w1: (Inr s1)
          note f1 = writeCell_s_Inr [OF wf w1]
          note wf1 = engineStep_wf [OF f1(1)]
          have v1: "stateValue s1 ?e = ?v\<lparr>board := boardValue s1 ?b\<rparr>"
            by (rule stateValue_eqI) (simp_all add: f1)
          show ?thesis
          proof (cases "writeCell_s s1 ?b ?mr ?mc EMPTY")
            case w2: (Inl x)
            from writeCell_s_Inl [OF w2] show ?thesis
              using Inr peg w1 w2 f1 v1 by (simp add: unf)
          next
            case w2: (Inr s2)
            from w2 have w2': "writeCell_s s1 (boardRef s1 ?e) ?mr ?mc EMPTY = Inr s2"
              by (simp add: f1)
            note f2 = writeCell_s_Inr [OF wf1 w2', unfolded f1(2)]
            note wf2 = engineStep_wf [OF f2(1)]
            note st2 = engineStep_trans [OF f1(1) f2(1)]
            have v2: "stateValue s2 ?e = ?v\<lparr>board := boardValue s2 ?b\<rparr>"
              by (rule stateValue_eqI) (simp_all add: f1 f2)
            show ?thesis
            proof (cases "writeCell_s s2 ?b tr tc PEG")
              case w3: (Inl x)
              from writeCell_s_Inl [OF w3] show ?thesis
                using Inr peg w1 w2 w3 f1 f2 v2 st2 by (simp add: unf)
            next
              case w3: (Inr s3)
              from w3 have w3': "writeCell_s s2 (boardRef s2 ?e) tr tc PEG = Inr s3"
                by (simp add: f2)
              note f3 = writeCell_s_Inr [OF wf2 w3', unfolded f2(2)]
              note st3 = engineStep_trans [OF st2 f3(1)]
              have v3: "stateValue s3 ?e = ?v\<lparr>board := boardValue s3 ?b\<rparr>"
                by (rule stateValue_eqI) (simp_all add: f1 f2 f3)
              show ?thesis
                using Inr peg w1 w2 w3 f1 f2 f3 v3 st3 by (simp add: unf)
            qed
          qed
        qed
      qed
    qed
  qed
qed

lemma boardValue_frame:
  assumes "s' ! b = s ! b" and "\<forall>a \<in> set (rowRefs s b). s' ! a = s ! a"
  shows "boardValue s' b = boardValue s b"
proof -
  from assms(1) have "rowRefs s' b = rowRefs s b" by (simp add: rowRefs_def)
  with assms(2) show ?thesis by (simp add: boardValue_def rowValue_def)
qed

lemma assignSelectedPeg_alloc_step:
  assumes wf: "wfState s e" and al: "allocPeg pv s = (p, s1)"
  shows "engineStep e s (assignSelectedPeg e p s1)"
    and "boardRef (assignSelectedPeg e p s1) e = boardRef s e"
    and "pegValue (assignSelectedPeg e p s1) (selectedPegRef (assignSelectedPeg e p s1) e) = pv"
    and "\<forall>a < length s. a \<noteq> e \<longrightarrow> assignSelectedPeg e p s1 ! a = s ! a"
proof -
  from wf have e: "e < length s" by (simp add: wfState_def)
  obtain new where s1: "s1 = s @ new"
    and c: "p = None \<and> new = [] \<and> pv = None \<or>
            (\<exists>r c. p = Some (length s) \<and> new = [PegObject r c] \<and> pv = Some (r, c))"
    using al by (cases pv rule: allocPeg_cases [where s = s]) auto
  from c have c': "p = None \<and> new = [] \<or> (\<exists>r c. p = Some (length s) \<and> new = [PegObject r c])"
    by auto
  note st = assignSelectedPeg_step [OF wf c']
  show "engineStep e s (assignSelectedPeg e p s1)"
    and "boardRef (assignSelectedPeg e p s1) e = boardRef s e"
    unfolding s1 by (rule st)+
  have s2: "assignSelectedPeg e p s1 = (s @ new)[e := StateObject (boardRef (s @ new) e) p]"
    by (simp add: assignSelectedPeg_def s1)
  show "\<forall>a < length s. a \<noteq> e \<longrightarrow> assignSelectedPeg e p s1 ! a = s ! a"
    by (simp add: s2 nth_append)
  have "pegValue (assignSelectedPeg e p s1) p = pv"
    using c e unfolding s2 by (auto simp: pegValue_def)
  then show "pegValue (assignSelectedPeg e p s1) (selectedPegRef (assignSelectedPeg e p s1) e) = pv"
    unfolding s1 st(3) .
qed

lemma restore_s_step:
  assumes wf: "wfState s (stateRef orig)"
  shows "engineStep (stateRef orig) s (restore_s m orig s)"
    and "\<forall>a < length s. a \<noteq> stateRef orig \<longrightarrow> restore_s m orig s ! a = s ! a"
    and "stateRef orig \<notin> stateRefs s (getState_s s m) \<Longrightarrow>
         \<forall>a \<in> stateRefs s (getState_s s m). a < length s \<Longrightarrow>
         stateValue (restore_s m orig s) (stateRef orig) = stateValue s (getState_s s m)"
proof -
  let ?e = "stateRef orig" and ?ms = "getState_s s m"
  let ?bv = "boardValue s (boardRef s ?ms)"
  let ?s1 = "s @ map RowArray ?bv @ [BoardArray [length s..<length s + length ?bv]]"
  let ?s2 = "assignBoard ?e (length s + length ?bv) ?s1"
  note b = assignBoard_step [OF wf, of ?bv]
  note wf2 = engineStep_wf [OF b(1)]
  obtain p s3 where al: "allocPeg (pegValue ?s2 (selectedPegRef ?s2 ?ms)) ?s2 = (p, s3)"
    by (cases "allocPeg (pegValue ?s2 (selectedPegRef ?s2 ?ms)) ?s2") auto
  note a = assignSelectedPeg_alloc_step [OF wf2 al]
  have r: "restore_s m orig s = assignSelectedPeg ?e p s3"
    by (simp add: restore_s_def Let_def allocBoard_eq al)
  show "engineStep ?e s (restore_s m orig s)"
    unfolding r by (rule engineStep_trans [OF b(1) a(1)])
  have len: "length s \<le> length ?s2"
    using b(1) by (simp add: engineStep_def)
  show old: "\<forall>a < length s. a \<noteq> ?e \<longrightarrow> restore_s m orig s ! a = s ! a"
    unfolding r using a(4) b(6) len by auto
  assume ne: "?e \<notin> stateRefs s ?ms" and bound: "\<forall>a \<in> stateRefs s ?ms. a < length s"
  have f2: "\<forall>a \<in> stateRefs s ?ms. ?s2 ! a = s ! a"
    using ne bound b(6) by auto
  have pv: "pegValue ?s2 (selectedPegRef ?s2 ?ms) = pegValue s (selectedPegRef s ?ms)"
    using stateValue_frame(1) [OF f2] by (simp add: stateValue_def)
  have e: "?e < length s" using wf by (simp add: wfState_def)
  have bb: "boardRef (assignSelectedPeg ?e p s3) ?e = length s + length ?bv"
    using a(2) b(2) by simp
  have "boardValue (assignSelectedPeg ?e p s3) (length s + length ?bv)
        = boardValue ?s2 (length s + length ?bv)"
  proof (rule boardValue_frame)
    have lt: "length s + length ?bv < length ?s2"
      by (simp add: assignBoard_def)
    with e a(4) show "assignSelectedPeg ?e p s3 ! (length s + length ?bv)
        = ?s2 ! (length s + length ?bv)"
      by simp
    have rows: "rowRefs ?s2 (length s + length ?bv) = [length s..<length s + length ?bv]"
      using e by (simp add: rowRefs_def assignBoard_def nth_append)
    show "\<forall>x \<in> set (rowRefs ?s2 (length s + length ?bv)).
            assignSelectedPeg ?e p s3 ! x = ?s2 ! x"
      unfolding rows using e a(4) lt by auto
  qed
  with b(2,4) have bval: "boardValue (assignSelectedPeg ?e p s3)
      (boardRef (assignSelectedPeg ?e p s3) ?e) = ?bv"
    by (simp add: bb)
  show "stateValue (restore_s m orig s) ?e = stateValue s ?ms"
    unfolding r by (simp add: stateValue_def bval a(3) pv)
qed

lemma restartGame_s_step:
  assumes wf: "wfState s (stateRef orig)"
  shows "engineStep (stateRef orig) s (restartGame_s orig s)"
proof -
  let ?e = "stateRef orig" and ?bv = "boardValue s (initialLayoutRef orig)"
  note b = assignBoard_step [OF wf, of ?bv]
  have "allocPeg None (assignBoard ?e (length s + length ?bv)
          (s @ map RowArray ?bv @ [BoardArray [length s..<length s + length ?bv]]))
        = (None, assignBoard ?e (length s + length ?bv)
          (s @ map RowArray ?bv @ [BoardArray [length s..<length s + length ?bv]]))"
    by (simp add: allocPeg_def)
  note a = assignSelectedPeg_alloc_step [OF engineStep_wf [OF b(1)] this]
  show ?thesis
    unfolding restartGame_s_def allocBoard_eq prod.case
    by (rule engineStep_trans [OF b(1) a(1)])
qed

lemma selectCell_s_step:
  assumes wf: "wfState s (stateRef orig)"
  shows "engineStep (stateRef orig) s (snd (selectCell_s r c orig s))"
proof -
  let ?e = "stateRef orig"
  note refl = engineStep_refl [OF wf]
  have none: "engineStep ?e s' (assignSelectedPeg ?e None s')" if "wfState s' ?e" for s'
    by (rule assignSelectedPeg_alloc_step(1) [OF that, of None]) (simp add: allocPeg_def)
  have some: "engineStep ?e s (assignSelectedPeg ?e (Some (length s)) (s @ [PegObject r c]))"
    by (rule assignSelectedPeg_alloc_step(1) [OF wf, of "Some (r, c)"])
      (simp add: allocPeg_def alloc_def)
  show ?thesis
  proof (cases "readCell_s s (boardRef s ?e) r c")
    case (Inl x)
    then show ?thesis using refl by (simp add: selectCell_s_def)
  next
    case (Inr cell)
    show ?thesis
    proof (cases "cell = PEG")
      case True
      then show ?thesis
        using Inr none [OF wf] some by (simp add: selectCell_s_def alloc_def)
    next
      case False
      show ?thesis
      proof (cases "if cell = EMPTY then pegValue s (selectedPegRef s ?e) else None")
        case None
        then show ?thesis using Inr False refl by (simp add: selectCell_s_def)
      next
        case (Some sel)
        obtain sr sc where sel: "sel = (sr, sc)" by (cases sel)
        obtain res s' where t: "tryMove_s sr sc r c orig s = (res, s')"
          by (cases "tryMove_s sr sc r c orig s")
        from tryMove_s_sim [OF wf, of sr sc r c] t have st: "engineStep ?e s s'" by simp
        note st' = engineStep_trans [OF st none [OF engineStep_wf [OF st]]]
        show ?thesis
          using Inr False Some sel t st st'
          by (cases res) (simp_all add: selectCell_s_def)
      qed
    qed
  qed
qed

lemma applyCall_step:
  "wfState s (stateRef orig) \<Longrightarrow> engineStep (stateRef orig) s (applyCall orig call s)"
  by (cases call)
    (simp_all add: selectCell_s_step tryMove_s_sim restartGame_s_step restore_s_step)

lemma runCalls_step:
  "wfState s (stateRef orig) \<Longrightarrow> engineStep (stateRef orig) s (runCalls orig calls s)"
  unfolding runCalls_def
proof (induction calls arbitrary: s)
  case Nil
  then show ?case by (simp add: engineStep_refl)
next
  case (Cons call calls)
  note st = applyCall_step [OF Cons.prems, of call]
  from engineStep_trans [OF st Cons.IH [OF engineStep_wf [OF st]]]
  show ?case by simp
qed

lemma save_s_fresh:
  assumes wf: "wfState s (stateRef orig)" and sv: "save_s now orig s = (m, s1)"
  shows "length s \<le> m" and "m < length s1"
    and "\<forall>a < length s. s1 ! a = s ! a"
    and "s1 ! m = MementoObject (getState_s s1 m) now"
    and "stateRefs s1 (getState_s s1 m) \<subseteq> {length s..<length s1}"
    and "stateValue s1 (getState_s s1 m) = stateValue s (stateRef orig)"
    and "wfState s1 (stateRef orig)"
    and "stateRefs s1 (stateRef orig) = stateRefs s (stateRef orig)"
proof -
  let ?e = "stateRef orig"
  let ?v = "stateValue s ?e"
  let ?bv = "boardValue s (boardRef s ?e)"
  let ?n = "length s" and ?b = "length s + length ?bv"
  let ?sA = "s @ map RowArray ?bv @ [BoardArray [?n..<?b]]"
  obtain p new where al: "allocPeg (selectedPeg ?v) ?sA = (p, ?sA @ new)"
    and c: "p = None \<and> new = [] \<and> selectedPeg ?v = None \<or>
            (\<exists>r c. p = Some (length ?sA) \<and> new = [PegObject r c] \<and> selectedPeg ?v = Some (r, c))"
    by (cases "selectedPeg ?v" rule: allocPeg_cases [where s = ?sA]) auto
  let ?sB = "?sA @ new"
  let ?ms = "length ?sB"
  have s1: "s1 = ?sB @ [StateObject ?b p, MementoObject ?ms now]"
    and m: "m = Suc ?ms"
    using sv al by (simp_all add: save_s_def newConcreteMemento_def parseState_def
        allocBoard_eq alloc_eq)
  show "length s \<le> m" "m < length s1"
    by (simp_all add: s1 m)
  show old: "\<forall>a < length s. s1 ! a = s ! a"
    by (simp add: s1 nth_append)
  have at_m: "s1 ! m = MementoObject ?ms now"
    unfolding s1 m by (simp add: nth_append)
  then have g: "getState_s s1 m = ?ms"
    by (simp add: getState_s_def)
  show "s1 ! m = MementoObject (getState_s s1 m) now"
    using at_m g by simp
  have at_ms: "s1 ! ?ms = StateObject ?b p"
    unfolding s1 by (simp add: nth_append)
  have at_b: "s1 ! ?b = BoardArray [?n..<?b]"
    unfolding s1 by (simp add: nth_append)
  have at_row: "s1 ! (?n + i) = RowArray (?bv ! i)" if "i < length ?bv" for i
    using that unfolding s1 by (simp add: nth_append)
  have bref: "boardRef s1 ?ms = ?b" and pref: "selectedPegRef s1 ?ms = p"
    using at_ms by (simp_all add: boardRef_def selectedPegRef_def)
  have rows: "rowRefs s1 ?b = [?n..<?b]"
    using at_b by (simp add: rowRefs_def)
  have "map (rowValue s1) [?n..<?b] = ?bv"
    by (rule nth_equalityI) (simp_all add: rowValue_def at_row)
  then have bval: "boardValue s1 ?b = ?bv"
    by (simp add: boardValue_def [of s1] rows)
  have pval: "pegValue s1 p = selectedPeg ?v"
    using c unfolding s1 by (auto simp: pegValue_def nth_append)
  show "stateValue s1 (getState_s s1 m) = ?v"
    unfolding g stateValue_def [of s1] bref pref bval pval
    by (simp add: stateValue_def)
  have len: "length s1 = ?ms + 2" by (simp add: s1)
  show "stateRefs s1 (getState_s s1 m) \<subseteq> {length s..<length s1}"
    unfolding g stateRefs_def bref pref rows using c len by auto
  have f: "\<forall>a \<in> stateRefs s ?e. s1 ! a = s ! a"
    using wfState_bound [OF wf] old by simp
  show "wfState s1 ?e"
    by (rule wfState_frame [OF f _ wf]) (simp add: s1)
  show "stateRefs s1 ?e = stateRefs s ?e"
    by (rule stateValue_frame [OF f])
qed

text \<open>What an engine step leaves alone: a memento captured before it.\<close>

lemma memento_isolated:
  assumes wf: "wfState s (stateRef orig)" and sv: "save_s now orig s = (m, s1)"
    and st: "engineStep (stateRef orig) s1 s2"
  shows "getState_s s2 m = getState_s s1 m"
    and "stateValue s2 (getState_s s1 m) = stateValue s (stateRef orig)"
    and "stateRefs s2 (getState_s s1 m) = stateRefs s1 (getState_s s1 m)"
    and "stateRefs s2 (getState_s s1 m) \<inter> stateRefs s2 (stateRef orig) = {}"
    and "stateRefs s2 (getState_s s1 m) \<subseteq> {..<length s2}"
proof -
  let ?e = "stateRef orig" and ?ms = "getState_s s1 m"
  note sf = save_s_fresh [OF wf sv]
  have ebound: "\<forall>a \<in> stateRefs s1 ?e. a < length s"
    unfolding sf(8) using wfState_bound [OF wf] by simp
  have keep: "s2 ! a = s1 ! a" if "length s \<le> a" "a < length s1" for a
  proof -
    from that ebound have "a \<notin> stateRefs s1 ?e" by auto
    with st that show ?thesis by (simp add: engineStep_def)
  qed
  from keep [OF sf(1,2)] show "getState_s s2 m = ?ms"
    by (simp add: getState_s_def)
  have f: "\<forall>a \<in> stateRefs s1 ?ms. s2 ! a = s1 ! a"
    using sf(5) keep by auto
  from stateValue_frame [OF f] sf(6)
  show "stateValue s2 ?ms = stateValue s ?e" and r: "stateRefs s2 ?ms = stateRefs s1 ?ms"
    by simp_all
  have "stateRefs s2 ?e \<subseteq> stateRefs s1 ?e \<union> {length s1..<length s2}"
    using st by (simp add: engineStep_def)
  with ebound sf(5) show "stateRefs s2 ?ms \<inter> stateRefs s2 ?e = {}"
    unfolding r by fastforce
  have "length s1 \<le> length s2" using st by (simp add: engineStep_def)
  with sf(5) show "stateRefs s2 ?ms \<subseteq> {..<length s2}"
    unfolding r by auto
qed

lemma scriptStore_eq:
  "theOriginatorRef = \<lparr>initialLayoutRef = 7, stateRef = 16\<rparr>"
  "initialStore =
    [RowArray [INVALID, INVALID, PEG, PEG, PEG, INVALID, INVALID],
     RowArray [INVALID, INVALID, PEG, PEG, PEG, INVALID, INVALID],
     RowArray [PEG, PEG, PEG, PEG, PEG, PEG, PEG],
     RowArray [PEG, PEG, PEG, EMPTY, PEG, PEG, PEG],
     RowArray [PEG, PEG, PEG, PEG, PEG, PEG, PEG],
     RowArray [INVALID, INVALID, PEG, PEG, PEG, INVALID, INVALID],
     RowArray [INVALID, INVALID, PEG, PEG, PEG, INVALID, INVALID],
     BoardArray [0, 1, 2, 3, 4, 5, 6],
     RowArray [INVALID, INVALID, PEG, PEG, PEG, INVALID, INVALID],
     RowArray [INVALID, INVALID, PEG, PEG, PEG, INVALID, INVALID],
     RowArray [PEG, PEG, PEG, PEG, PEG, PEG, PEG],
     RowArray [PEG, PEG, PEG, EMPTY, PEG, PEG, PEG],
     RowArray [PEG, PEG, PEG, PEG, PEG, PEG, PEG],
     RowArray [INVALID, INVALID, PEG, PEG, PEG, INVALID, INVALID],
     RowArray [INVALID, INVALID, PEG, PEG, PEG, INVALID, INVALID],
     BoardArray [8, 9, 10, 11, 12, 13, 14],
     StateObject 15 None]"
  by (simp_all add: theOriginatorRef_def initialStore_def scriptStore_def newOriginator_s_def
      allocBoard_eq alloc_eq initialBoardLayout_def boardValue_def rowRefs_def rowValue_def
      upt_rec)

lemma initialStore_value: "stateValue initialStore (stateRef theOriginatorRef) = initialState"
  by (simp add: scriptStore_eq stateValue_def boardValue_def rowRefs_def rowValue_def
      boardRef_def selectedPegRef_def pegValue_def
      initialState_def theOriginator_def newOriginator_def initialBoardLayout_def)

lemma initialStore_wf: "wfState initialStore (stateRef theOriginatorRef)"
  by (simp add: scriptStore_eq wfState_def boardRef_def selectedPegRef_def rowRefs_def)

text \<open>
  The store-level \<open>selectCell\<close> and \<open>restartGame\<close> compute what the value-level
  ones do.
\<close>

lemma assignSelectedPeg_value:
  assumes wf: "wfState s e" and al: "allocPeg pv s = (p, s1)"
  shows "stateValue (assignSelectedPeg e p s1) e = (stateValue s e)\<lparr>selectedPeg := pv\<rparr>"
proof -
  let ?s2 = "assignSelectedPeg e p s1"
  note a = assignSelectedPeg_alloc_step [OF wf al]
  from wf have e: "e < length s" and eobj: "\<exists>b p. s ! e = StateObject b p"
    and b: "boardRef s e < length s" and bobj: "\<exists>rows. s ! boardRef s e = BoardArray rows"
    and rows: "\<forall>a \<in> set (rowRefs s (boardRef s e)). a < length s \<and> (\<exists>cells. s ! a = RowArray cells)"
    by (simp_all add: wfState_def)
  have "boardValue ?s2 (boardRef s e) = boardValue s (boardRef s e)"
  proof (rule boardValue_frame)
    from eobj bobj have "boardRef s e \<noteq> e" by auto
    with a(4) b show "?s2 ! boardRef s e = s ! boardRef s e" by simp
    show "\<forall>x \<in> set (rowRefs s (boardRef s e)). ?s2 ! x = s ! x"
    proof
      fix x assume x: "x \<in> set (rowRefs s (boardRef s e))"
      with rows eobj have "x \<noteq> e" "x < length s" by auto
      with a(4) show "?s2 ! x = s ! x" by simp
    qed
  qed
  then show ?thesis
    by (simp add: stateValue_def a(2,3))
qed

lemma selectCell_s_sim:
  assumes wf: "wfState s (stateRef orig)"
  shows "fst (selectCell_s r c orig s) = fst (selectCell r c (stateValue s (stateRef orig))) \<and>
         stateValue (snd (selectCell_s r c orig s)) (stateRef orig)
           = snd (selectCell r c (stateValue s (stateRef orig)))"
proof -
  let ?e = "stateRef orig"
  let ?v = "stateValue s ?e"
  have none: "stateValue (assignSelectedPeg ?e None s') ?e = (stateValue s' ?e)\<lparr>selectedPeg := None\<rparr>"
    if "wfState s' ?e" for s'
    by (rule assignSelectedPeg_value [OF that, of None]) (simp add: allocPeg_def)
  have some: "stateValue (assignSelectedPeg ?e (Some (length s)) (s @ [PegObject r c])) ?e
      = ?v\<lparr>selectedPeg := Some (r, c)\<rparr>"
    by (rule assignSelectedPeg_value [OF wf]) (simp add: allocPeg_def alloc_def)
  show ?thesis
  proof (cases "readCell (boardValue s (boardRef s ?e)) r c")
    case (Inl x)
    then show ?thesis by (simp add: selectCell_s_def selectCell_def readCell_s_eq)
  next
    case (Inr cell)
    show ?thesis
    proof (cases "cell = PEG")
      case True
      then show ?thesis
        using Inr none [OF wf] some
        by (simp add: selectCell_s_def selectCell_def readCell_s_eq alloc_def)
    next
      case False
      show ?thesis
      proof (cases "cell = EMPTY \<and> pegValue s (selectedPegRef s ?e) \<noteq> None")
        case no: False
        then have "cell \<noteq> EMPTY \<or> pegValue s (selectedPegRef s ?e) = None" by blast
        then show ?thesis
          using Inr False
          by (auto simp: selectCell_s_def selectCell_def readCell_s_eq)
      next
        case True
        then obtain sr sc where sel: "pegValue s (selectedPegRef s ?e) = Some (sr, sc)"
          and e: "cell = EMPTY"
          by auto
        obtain res s' where t: "tryMove_s sr sc r c orig s = (res, s')"
          by (cases "tryMove_s sr sc r c orig s")
        obtain res' v' where t': "tryMove sr sc r c ?v = (res', v')"
          by (cases "tryMove sr sc r c ?v")
        from tryMove_s_sim [OF wf, of sr sc r c] t t'
        have r: "res = res'" and v: "stateValue s' ?e = v'" and st: "engineStep ?e s s'"
          by simp_all
        note n = none [OF engineStep_wf [OF st]]
        show ?thesis
          using Inr e sel t t' r v n
          by (cases res') (simp_all add: selectCell_s_def selectCell_def readCell_s_eq)
      qed
    qed
  qed
qed

lemma restartGame_s_value:
  assumes wf: "wfState s (stateRef orig)"
  shows "stateValue (restartGame_s orig s) (stateRef orig)
         = \<lparr>board = boardValue s (initialLayoutRef orig), selectedPeg = None\<rparr>"
proof -
  let ?e = "stateRef orig" and ?bv = "boardValue s (initialLayoutRef orig)"
  let ?s2 = "assignBoard ?e (length s + length ?bv)
          (s @ map RowArray ?bv @ [BoardArray [length s..<length s + length ?bv]])"
  note b = assignBoard_step [OF wf, of ?bv]
  have "stateValue (assignSelectedPeg ?e None ?s2) ?e = (stateValue ?s2 ?e)\<lparr>selectedPeg := None\<rparr>"
    by (rule assignSelectedPeg_value [OF engineStep_wf [OF b(1)], of None])
      (simp add: allocPeg_def)
  then show ?thesis
    by (simp add: restartGame_s_def allocBoard_eq stateValue_def b(4))
qed

text \<open>
  C3. On a well-formed store, restoring the memento that was just captured gives back
  the same board and selection. And whatever move is attempted between a backup and an
  undo (it has the result and the effect of the value-level \<open>tryMove\<close>), the undo gives
  back the board and the selection from before the move and leaves the history as it
  was before the backup.
\<close>

theorem undo_roundtrip:
  assumes "wfState s (stateRef (originatorRef ct))"
  shows
    "stateValue (captureThenRestore now (originatorRef ct) s) (stateRef (originatorRef ct))
       = stateValue s (stateRef (originatorRef ct)) \<and>
     fst (snd (backupThenMove now fr fc tr tc ct s))
       = fst (tryMove fr fc tr tc (stateValue s (stateRef (originatorRef ct)))) \<and>
     stateValue (snd (snd (backupThenMove now fr fc tr tc ct s))) (stateRef (originatorRef ct))
       = snd (tryMove fr fc tr tc (stateValue s (stateRef (originatorRef ct)))) \<and>
     stateValue (snd (backupMoveUndo now fr fc tr tc ct s)) (stateRef (originatorRef ct))
       = stateValue s (stateRef (originatorRef ct)) \<and>
     mementoRefs (fst (backupMoveUndo now fr fc tr tc ct s)) = mementoRefs ct"
proof -
  let ?orig = "originatorRef ct"
  let ?e = "stateRef ?orig"
  obtain m s1 where sv: "save_s now ?orig s = (m, s1)"
    by (cases "save_s now ?orig s")
  note sf = save_s_fresh [OF assms sv]
  let ?ms = "getState_s s1 m"
  have restore_after: "stateValue (restore_s m ?orig s2) ?e = stateValue s ?e"
    if st: "engineStep ?e s1 s2" for s2
  proof -
    note iso = memento_isolated [OF assms sv st]
    have "stateValue (restore_s m ?orig s2) ?e = stateValue s2 (getState_s s2 m)"
    proof (rule restore_s_step(3))
      show "wfState s2 ?e" using st by (rule engineStep_wf)
      have "?e \<in> stateRefs s2 ?e" by (simp add: stateRefs_def)
      with iso(4) show "?e \<notin> stateRefs s2 (getState_s s2 m)"
        unfolding iso(1) by auto
      show "\<forall>a \<in> stateRefs s2 (getState_s s2 m). a < length s2"
        unfolding iso(1) using iso(5) by auto
    qed
    with iso(1,2) show ?thesis by simp
  qed
  have a: "stateValue (captureThenRestore now ?orig s) ?e = stateValue s ?e"
    using restore_after [OF engineStep_refl [OF sf(7)]]
    by (simp add: captureThenRestore_def sv)
  obtain res s2 where t: "tryMove_s fr fc tr tc ?orig s1 = (res, s2)"
    by (cases "tryMove_s fr fc tr tc ?orig s1")
  from tryMove_s_sim [OF sf(7), of fr fc tr tc] t
  have res: "res = fst (tryMove fr fc tr tc (stateValue s1 ?e))"
    and v2: "stateValue s2 ?e = snd (tryMove fr fc tr tc (stateValue s1 ?e))"
    and st: "engineStep ?e s1 s2"
    by simp_all
  have v1: "stateValue s1 ?e = stateValue s ?e"
  proof (rule stateValue_frame(1))
    show "\<forall>a \<in> stateRefs s ?e. s1 ! a = s ! a"
      using wfState_bound [OF assms] sf(3) by simp
  qed
  have bm: "backupThenMove now fr fc tr tc ct s
      = (ct\<lparr>mementoRefs := mementoRefs ct @ [m]\<rparr>, res, s2)"
    by (simp add: backupThenMove_def backup_s_def sv t)
  have bu: "backupMoveUndo now fr fc tr tc ct s
      = (ct\<lparr>mementoRefs := mementoRefs ct\<rparr>, restore_s m ?orig s2)"
    by (simp add: backupMoveUndo_def bm undo_s_def)
  show ?thesis
    using a res v2 v1 restore_after [OF st] by (simp add: bm bu)
qed

theorem undo_roundtrip_witness:
  "wfState initialStore (stateRef (originatorRef theCaretakerRef)) \<and>
   stateValue (captureThenRestore ''2026-01-01 10:00:00'' (originatorRef theCaretakerRef)
       initialStore) (stateRef (originatorRef theCaretakerRef)) = initialState \<and>
   fst (snd (backupThenMove ''2026-01-01 10:00:00'' 3 1 3 3 theCaretakerRef initialStore))
     = Inr True \<and>
   readCell (board (stateValue
       (snd (snd (backupThenMove ''2026-01-01 10:00:00'' 3 1 3 3 theCaretakerRef initialStore)))
       (stateRef (originatorRef theCaretakerRef)))) 3 3 = Inr PEG \<and>
   stateValue (snd (backupMoveUndo ''2026-01-01 10:00:00'' 3 1 3 3 theCaretakerRef initialStore))
       (stateRef (originatorRef theCaretakerRef)) = initialState \<and>
   mementoRefs (fst (backupMoveUndo ''2026-01-01 10:00:00'' 3 1 3 3 theCaretakerRef
       initialStore)) = []"
proof -
  have o: "originatorRef theCaretakerRef = theOriginatorRef"
    by (simp add: theCaretakerRef_def)
  have wf: "wfState initialStore (stateRef (originatorRef theCaretakerRef))"
    unfolding o by (rule initialStore_wf)
  have v: "stateValue initialStore (stateRef (originatorRef theCaretakerRef)) = initialState"
    unfolding o by (rule initialStore_value)
  have t: "fst (tryMove 3 1 3 3 initialState) = Inr True"
    "readCell (board (snd (tryMove 3 1 3 3 initialState))) 3 3 = Inr PEG"
    by (simp_all add: tryMove_def readCell_def writeCell_def setIndex_def initialBoardLayout_def)
  have m: "mementoRefs theCaretakerRef = []"
    by (simp add: theCaretakerRef_def)
  from undo_roundtrip [OF wf, of "''2026-01-01 10:00:00''" 3 1 3 3] wf t
  show ?thesis unfolding v m by simp
qed

text \<open>
  C8, as stated, fails: \<^verbatim>\<open>getState\<close> returns the reference that the memento holds,
  not a copy. After a snapshot of the initial state, writing a PEG to \<open>(3, 3)\<close> through
  the returned reference changes the board that the snapshot stores.
\<close>

lemma snapshotExample_ref:
  "fst snapshotExample = 26"
  "getState_s (snd snapshotExample) (fst snapshotExample) = 25"
  "snd snapshotExample ! 26 = MementoObject 25 ''2026-01-01 10:00:00''"
  "snd snapshotExample ! 25 = StateObject 24 None"
  "snd snapshotExample ! 24 = BoardArray [17, 18, 19, 20, 21, 22, 23]"
  "snd snapshotExample ! 20 = RowArray [PEG, PEG, PEG, EMPTY, PEG, PEG, PEG]"
  "length (snd snapshotExample) = 27"
  by (simp_all add: snapshotExample_def save_s_def newConcreteMemento_def parseState_def
      allocBoard_eq alloc_eq allocPeg_def getState_s_def
      scriptStore_eq stateValue_def boardValue_def rowRefs_def rowValue_def
      boardRef_def selectedPegRef_def pegValue_def upt_rec nth_append)

theorem getState_alias_counterexample:
  "snd snapshotExample ! fst snapshotExample
     = MementoObject (getState_s (snd snapshotExample) (fst snapshotExample))
         ''2026-01-01 10:00:00'' \<and>
   readCell (board (stateValue (snd snapshotExample)
      (getState_s (snd snapshotExample) (fst snapshotExample)))) 3 3 = Inr EMPTY \<and>
   writeCell_s (snd snapshotExample)
      (boardRef (snd snapshotExample) (getState_s (snd snapshotExample) (fst snapshotExample)))
      3 3 PEG = Inr mutatedThroughGetState \<and>
   readCell (board (stateValue mutatedThroughGetState
      (getState_s mutatedThroughGetState (fst snapshotExample)))) 3 3 = Inr PEG"
  by (simp add: mutatedThroughGetState_def split_beta snapshotExample_ref
      writeCell_s_def readCell_def setIndex_def getState_s_def
      boardValue_def rowRefs_def rowValue_def boardRef_def)

text \<open>
  C8, amended. The memento holds the reference that \<^verbatim>\<open>getState\<close> returns; the state
  behind it is a copy of the engine's state at the capture; and after any sequence of
  calls of the engine (\<open>selectCell\<close>, \<open>tryMove\<close>, \<open>restartGame\<close>, \<open>restore\<close> from any
  memento, this one included) the memento still holds that reference, the state behind
  it still has the captured value, and it shares no object with the engine's state.
\<close>

theorem snapshot_isolated:
  assumes "wfState s (stateRef orig)" and "save_s now orig s = (m, s1)"
  shows
    "s1 ! m = MementoObject (getState_s s1 m) now \<and>
     stateValue s1 (getState_s s1 m) = stateValue s (stateRef orig) \<and>
     getState_s (runCalls orig calls s1) m = getState_s s1 m \<and>
     stateValue (runCalls orig calls s1) (getState_s s1 m) = stateValue s (stateRef orig) \<and>
     stateRefs (runCalls orig calls s1) (getState_s s1 m)
       \<inter> stateRefs (runCalls orig calls s1) (stateRef orig) = {}"
proof -
  note sf = save_s_fresh [OF assms]
  have st: "engineStep (stateRef orig) s1 (runCalls orig calls s1)"
    using sf(7) by (rule runCalls_step)
  note iso = memento_isolated [OF assms st]
  from sf(4,6) iso(1,2,4) show ?thesis by simp
qed

theorem snapshot_isolated_witness:
  "wfState initialStore (stateRef theOriginatorRef) \<and>
   save_s ''2026-01-01 10:00:00'' theOriginatorRef initialStore
     = (fst snapshotExample, snd snapshotExample) \<and>
   snd snapshotExample ! fst snapshotExample
     = MementoObject (getState_s (snd snapshotExample) (fst snapshotExample))
         ''2026-01-01 10:00:00'' \<and>
   getState_s (runCalls theOriginatorRef
       [CallSelectCell 3 1, CallSelectCell 3 3, CallRestore (fst snapshotExample),
        CallTryMove 3 5 3 3, CallRestartGame] (snd snapshotExample)) (fst snapshotExample)
     = getState_s (snd snapshotExample) (fst snapshotExample) \<and>
   stateValue (runCalls theOriginatorRef
       [CallSelectCell 3 1, CallSelectCell 3 3, CallRestore (fst snapshotExample),
        CallTryMove 3 5 3 3, CallRestartGame] (snd snapshotExample))
      (getState_s (snd snapshotExample) (fst snapshotExample)) = initialState"
proof -
  have sv: "save_s ''2026-01-01 10:00:00'' theOriginatorRef initialStore
     = (fst snapshotExample, snd snapshotExample)"
    by (simp add: snapshotExample_def)
  from snapshot_isolated [OF initialStore_wf sv] initialStore_wf sv
  show ?thesis by (simp add: initialStore_value)
qed

end
